theory Spec2Isabelle
  imports Main
begin

section \<open>Python strings and the regular expressions of the scripts\<close>

text \<open>
  A Python \<open>str\<close> is modelled as a \<open>string\<close> whose characters are the code points
  below 256. \<open>is_space\<close> is \<open>str.isspace\<close> on one character, which is also what
  \<open>\s\<close> matches and what \<open>strip\<close>, \<open>lstrip\<close> and \<open>rstrip\<close> remove; \<open>is_word\<close>
  is what \<open>\w\<close> matches. Both tables are Python's for the code points below 256.
\<close>

definition is_space :: "char \<Rightarrow> bool" where
  "is_space c =
     (let n = (of_char c :: nat)
      in (9 \<le> n \<and> n \<le> 13) \<or> (28 \<le> n \<and> n \<le> 32) \<or> n = 133 \<or> n = 160)"

definition is_word :: "char \<Rightarrow> bool" where
  "is_word c =
     (let n = (of_char c :: nat)
      in (48 \<le> n \<and> n \<le> 57) \<or> (65 \<le> n \<and> n \<le> 90) \<or> n = 95 \<or> (97 \<le> n \<and> n \<le> 122)
         \<or> n = 170 \<or> n = 178 \<or> n = 179 \<or> n = 181 \<or> n = 185 \<or> n = 186
         \<or> (188 \<le> n \<and> n \<le> 190) \<or> (192 \<le> n \<and> n \<le> 214) \<or> (216 \<le> n \<and> n \<le> 246)
         \<or> (248 \<le> n \<and> n \<le> 255))"

definition lstrip :: "string \<Rightarrow> string" where
  "lstrip s = dropWhile is_space s"

definition rstrip :: "string \<Rightarrow> string" where
  "rstrip s = rev (dropWhile is_space (rev s))"


text \<open>\<open>len(line) - len(line.lstrip())\<close>: the number of leading whitespace characters.\<close>

definition indent_of :: "string \<Rightarrow> nat" where
  "indent_of s = length s - length (lstrip s)"

text \<open>\<open>'{' in line\<close>.\<close>

definition has_brace :: "string \<Rightarrow> bool" where
  "has_brace s = (CHR ''{'' \<in> set s)"

text \<open>
  \<open>\b\<close> at position \<open>i\<close> of \<open>s\<close>: exactly one of the characters before and after the
  position is a word character; the two ends of the string count as non-word.
\<close>

definition word_before :: "string \<Rightarrow> nat \<Rightarrow> bool" where
  "word_before s i = (0 < i \<and> i \<le> length s \<and> is_word (s ! (i - 1)))"

definition word_after :: "string \<Rightarrow> nat \<Rightarrow> bool" where
  "word_after s i = (i < length s \<and> is_word (s ! i))"

definition word_boundary :: "string \<Rightarrow> nat \<Rightarrow> bool" where
  "word_boundary s i = (word_before s i \<noteq> word_after s i)"

text \<open>The literal \<open>k\<close> matches at position \<open>i\<close> of \<open>s\<close>.\<close>

definition literal_at :: "string \<Rightarrow> nat \<Rightarrow> string \<Rightarrow> bool" where
  "literal_at s i k = (take (length k) (drop i s) = k)"

text \<open>\<open>re.search(r'\b(const|let|var)\b', line)\<close>: a match starting at some position.\<close>

definition decl_at :: "string \<Rightarrow> nat \<Rightarrow> bool" where
  "decl_at s i =
     (word_boundary s i \<and>
      list_ex (\<lambda>k. literal_at s i k \<and> word_boundary s (i + length k))
        [''const'', ''let'', ''var''])"

definition has_lexical_decl :: "string \<Rightarrow> bool" where
  "has_lexical_decl s = list_ex (decl_at s) [0..<Suc (length s)]"

text \<open>
  \<open>\s*;?\s*$\<close> on the rest of the line after the keyword: whitespace, at most one
  semicolon, whitespace, end of the string (the final newline is whitespace).
\<close>

definition exit_tail :: "string \<Rightarrow> bool" where
  "exit_tail r =
     (case lstrip r of
        [] \<Rightarrow> True
      | c # r2 \<Rightarrow> c = CHR '';'' \<and> lstrip r2 = [])"

text \<open>\<open>re.search(r'\b(break|return)\s*;?\s*$', next_line)\<close>.\<close>

definition exit_at :: "string \<Rightarrow> nat \<Rightarrow> bool" where
  "exit_at s i =
     (word_boundary s i \<and>
      list_ex (\<lambda>k. literal_at s i k \<and> exit_tail (drop (i + length k) s))
        [''break'', ''return''])"

definition ends_with_exit :: "string \<Rightarrow> bool" where
  "ends_with_exit s = list_ex (exit_at s) [0..<Suc (length s)]"

text \<open>
  \<open>case\s+\<close> at the start of \<open>r\<close>: the word and at least one whitespace character.
\<close>

definition case_prefix :: "string \<Rightarrow> bool" where
  "case_prefix r = (literal_at r 0 ''case'' \<and> 4 < length r \<and> is_space (r ! 4))"

text \<open>
  \<open>re.match(r'\s*case\s+', line)\<close>. The greedy \<open>\s*\<close> takes all the leading whitespace,
  and giving some of it back cannot help, as \<open>case\<close> does not start with whitespace.
\<close>

definition is_case_label :: "string \<Rightarrow> bool" where
  "is_case_label s = case_prefix (lstrip s)"

text \<open>\<open>re.match(r'\s*(case\s+|default\s*:|})', next_line)\<close>.\<close>

definition is_block_boundary :: "string \<Rightarrow> bool" where
  "is_block_boundary s =
     (let r = lstrip s
      in case_prefix r
         \<or> (literal_at r 0 ''default'' \<and>
            (case lstrip (drop 7 r) of [] \<Rightarrow> False | c # _ \<Rightarrow> c = CHR '':''))
         \<or> literal_at r 0 ''}'')"

text \<open>\<open>s.endswith(suffix)\<close>.\<close>

definition endswith :: "string \<Rightarrow> string \<Rightarrow> bool" where
  "endswith s suffix = (length suffix \<le> length s \<and> drop (length s - length suffix) s = suffix)"

section \<open>fix-case-blocks.py: the loop of \<open>fix_case_block\<close> over the target lines\<close>

datatype error = IndexError | ReError

text \<open>
  \<open>lines[i]\<close> with a Python integer: a negative index counts from the end, and an index
  out of range raises \<open>IndexError\<close>.
\<close>

definition py_index :: "'a list \<Rightarrow> int \<Rightarrow> error + 'a" where
  "py_index xs i =
     (if 0 \<le> i \<and> i < int (length xs) then Inr (xs ! nat i)
      else if i < 0 \<and> - int (length xs) \<le> i then Inr (xs ! nat (int (length xs) + i))
      else Inl IndexError)"

text \<open>\<open>xs.insert(i, x)\<close> for \<open>i \<ge> 0\<close>; an index past the end appends.\<close>

definition list_insert :: "'a list \<Rightarrow> nat \<Rightarrow> 'a \<Rightarrow> 'a list" where
  "list_insert xs i x = take i xs @ x # drop i xs"

record change =
  case_line :: int
  declaration_line :: int
  end_line :: int

record state =
  lines :: "string list"
  changes :: "change list"
  modified_lines :: "int set"

text \<open>
  The backward scan for the case label: \<open>while case_idx >= 0: if re.match(...): break;
  case_idx -= 1\<close>. The result is negative when no line above matches.
\<close>

function find_case :: "string list \<Rightarrow> int \<Rightarrow> int" where
  "find_case ls case_idx =
     (if case_idx \<ge> 0
      then (if is_case_label (ls ! nat case_idx) then case_idx
            else find_case ls (case_idx - 1))
      else case_idx)"
  by pat_completeness auto
termination
  by (relation "measure (\<lambda>(ls, case_idx). nat (case_idx + 1))") auto

text \<open>
  The forward scan for the end of the block: stop before a \<open>case\<close>, \<open>default\<close> or
  closing brace at the indentation of the case label or less, and after a line that ends
  in \<open>break\<close> or \<open>return\<close>; otherwise stop at the end of the file.
\<close>

function find_end :: "string list \<Rightarrow> nat \<Rightarrow> nat \<Rightarrow> nat" where
  "find_end ls indent_level end_idx =
     (if end_idx < length ls
      then (let next_line = ls ! end_idx;
                next_indent = indent_of next_line
            in if next_indent \<le> indent_level \<and> is_block_boundary next_line then end_idx
               else if ends_with_exit next_line then end_idx + 1
               else find_end ls indent_level (end_idx + 1))
      else end_idx)"
  by pat_completeness auto
termination
  by (relation "measure (\<lambda>(ls, indent_level, end_idx). length ls - end_idx)") auto

text \<open>The new text of the case line; the two branches of the source are the same.\<close>

definition open_case :: "string \<Rightarrow> string" where
  "open_case line =
     (let case_line_stripped = rstrip line
      in if endswith case_line_stripped '':''
         then case_line_stripped @ '' {'' @ [CHR 0x0A]
         else case_line_stripped @ '' {'' @ [CHR 0x0A])"

definition closing_line :: "nat \<Rightarrow> string" where
  "closing_line indent_level = replicate (indent_level + 4) CHR '' '' @ ''}'' @ [CHR 0x0A]"

text \<open>One iteration of \<open>for line_num in sorted(line_numbers)\<close>.\<close>

definition process_target :: "state \<Rightarrow> int \<Rightarrow> error + state" where
  "process_target s line_num =
     (if line_num > int (length (lines s)) \<or> line_num \<in> modified_lines s then Inr s
      else
        let line_idx = line_num - 1 in
        case py_index (lines s) line_idx of
          Inl e \<Rightarrow> Inl e
        | Inr line \<Rightarrow>
            if \<not> has_lexical_decl line then Inr s
            else
              let case_idx = find_case (lines s) (line_idx - 1) in
              if case_idx < 0 then Inr s
              else
                let ci = nat case_idx;
                    case_line = lines s ! ci in
                if has_brace case_line
                   \<or> (ci + 1 < length (lines s) \<and> has_brace (lines s ! (ci + 1)))
                then Inr s
                else
                  let indent_level = indent_of (lines s ! ci);
                      end_idx = find_end (lines s) indent_level (nat (line_idx + 1));
                      lines1 = (lines s)[ci := open_case case_line];
                      lines2 = list_insert lines1 end_idx (closing_line indent_level)
                  in Inr \<lparr>lines = lines2,
                          changes = changes s @
                            [\<lparr>case_line = int ci + 1, declaration_line = line_num,
                              end_line = int end_idx + 1\<rparr>],
                          modified_lines = modified_lines s \<union>
                            (\<lambda>i. int i + 1) ` set [ci..<end_idx + 2]\<rparr>)"

fun process_targets :: "state \<Rightarrow> int list \<Rightarrow> error + state" where
  "process_targets s [] = Inr s"
| "process_targets s (line_num # rest) =
     (case process_target s line_num of
        Inl e \<Rightarrow> Inl e
      | Inr s' \<Rightarrow> process_targets s' rest)"

text \<open>
  The part of \<open>fix_case_block\<close> between reading the file and writing it: the lines read,
  the targets sorted, an empty change list and an empty set of modified lines.
\<close>

definition fix_lines :: "string list \<Rightarrow> int list \<Rightarrow> error + state" where
  "fix_lines ls line_numbers =
     process_targets \<lparr>lines = ls, changes = [], modified_lines = {}\<rparr> (sort line_numbers)"

section \<open>fix-case-blocks.py: files, output and the driver\<close>

text \<open>
  A file is its text. \<open>open(path, 'r')\<close> reads with universal newlines: \<open>\r\n\<close> and a
  lone \<open>\r\<close> arrive as \<open>\n\<close>, and \<open>readlines\<close> cuts after every \<open>\n\<close>, keeping it.
  \<open>writelines\<close> writes the lines one after the other (a \<open>\n\<close> is written as it is,
  as on POSIX). \<open>Path.exists\<close> holds for the paths that have a file; directories,
  permissions and undecodable bytes are not modelled.
\<close>

fun universal_newlines :: "string \<Rightarrow> string" where
  "universal_newlines [] = []"
| "universal_newlines [c] = (if c = CHR 0x0D then [CHR 0x0A] else [c])"
| "universal_newlines (c # d # cs) =
     (if c = CHR 0x0D \<and> d = CHR 0x0A then CHR 0x0A # universal_newlines cs
      else if c = CHR 0x0D then CHR 0x0A # universal_newlines (d # cs)
      else c # universal_newlines (d # cs))"

fun split_lines :: "string \<Rightarrow> string list" where
  "split_lines [] = []"
| "split_lines (c # cs) =
     (if c = CHR 0x0A then [c] # split_lines cs
      else (case split_lines cs of
              [] \<Rightarrow> [[c]]
            | l # ls \<Rightarrow> (c # l) # ls))"

definition readlines :: "string \<Rightarrow> string list" where
  "readlines content = split_lines (universal_newlines content)"

definition writelines :: "string list \<Rightarrow> string" where
  "writelines ls = concat ls"

text \<open>
  What the scripts print, without the wording, and what they write. The world is the
  files by path and the events so far, in order. A message carries the path as it was
  given; the form in which \<open>Path\<close> prints it is not modelled.
\<close>

datatype message =
    File_not_found string
  | Blocks_wrapped string nat
  | Case_at int int
  | And_more nat
  | Fixing_case_blocks
  | Total_fixed nat
  | File_changes string nat

datatype event = Print message | Write string string

record world =
  files :: "string \<rightharpoonup> string"
  events :: "event list"

definition emit :: "world \<Rightarrow> event list \<Rightarrow> world" where
  "emit w es = w\<lparr>events := events w @ es\<rparr>"

definition write_file :: "world \<Rightarrow> string \<Rightarrow> string \<Rightarrow> world" where
  "write_file w path content =
     w\<lparr>files := (files w)(path \<mapsto> content), events := events w @ [Write path content]\<rparr>"

text \<open>
  \<open>fix_case_block(file_path, line_numbers)\<close>: the world after the call, and the value
  returned or the exception raised.
\<close>

definition fix_case_block :: "world \<Rightarrow> string \<Rightarrow> int list \<Rightarrow> world \<times> (error + nat)" where
  "fix_case_block w file_path line_numbers =
     (case files w file_path of
        None \<Rightarrow> (emit w [Print (File_not_found file_path)], Inr 0)
      | Some content \<Rightarrow>
          (case fix_lines (readlines content) line_numbers of
             Inl e \<Rightarrow> (w, Inl e)
           | Inr s \<Rightarrow>
               if changes s \<noteq> []
               then
                 (emit (write_file w file_path (writelines (lines s)))
                    ([Print (Blocks_wrapped file_path (length (changes s)))]
                     @ map (\<lambda>c. Print (Case_at (case_line c) (declaration_line c)))
                         (take 3 (changes s))
                     @ (if length (changes s) > 3
                        then [Print (And_more (length (changes s) - 3))] else [])),
                  Inr (length (changes s)))
               else (w, Inr (length (changes s)))))"

definition affected_files :: "(string \<times> int list) list" where
  "affected_files =
     [(''src/audio/engine.ts'',
         [3754, 3755, 3756, 5551, 5557, 5563, 5572, 5649, 5655, 5661, 5662, 5687, 5697, 5704]),
      (''src/audio/mapping/ContentAwareMapper.ts'', [361, 362, 503, 607]),
      (''src/audio/mapping/FileTypeAnalyzer.ts'', [292, 293, 296]),
      (''src/audio/mapping/NoteCentricMapper.ts'', [355, 362, 368, 375, 381, 386, 1390])]"

text \<open>The loop of \<open>main\<close> over the table, with the running total.\<close>

fun fix_all :: "world \<Rightarrow> (string \<times> int list) list \<Rightarrow> nat \<Rightarrow> world \<times> (error + nat)" where
  "fix_all w [] total_changes = (w, Inr total_changes)"
| "fix_all w ((file_path, line_numbers) # rest) total_changes =
     (case fix_case_block w file_path line_numbers of
        (w', Inl e) \<Rightarrow> (w', Inl e)
      | (w', Inr n) \<Rightarrow> fix_all w' rest (total_changes + n))"

definition main :: "world \<Rightarrow> world \<times> (error + unit)" where
  "main w =
     (case fix_all (emit w [Print Fixing_case_blocks]) affected_files 0 of
        (w', Inl e) \<Rightarrow> (w', Inl e)
      | (w', Inr total_changes) \<Rightarrow> (emit w' [Print (Total_fixed total_changes)], Inr ()))"

section \<open>Notions for the statements about one target\<close>

text \<open>
  For a target \<open>t\<close> on the lines \<open>ls\<close>: the index of the case label found above it, the
  index where the closing brace goes, whether the loop body reaches the mutation once
  the two guards at its head are passed, and the state it then leaves.
\<close>

definition anchor :: "string list \<Rightarrow> int \<Rightarrow> nat" where
  "anchor ls t = nat (find_case ls (t - 2))"

definition block_end :: "string list \<Rightarrow> int \<Rightarrow> nat" where
  "block_end ls t = find_end ls (indent_of (ls ! anchor ls t)) (nat t)"

definition wraps :: "string list \<Rightarrow> int \<Rightarrow> bool" where
  "wraps ls t =
     (1 \<le> t \<and> t \<le> int (length ls) \<and> has_lexical_decl (ls ! nat (t - 1))
      \<and> 0 \<le> find_case ls (t - 2)
      \<and> \<not> has_brace (ls ! anchor ls t)
      \<and> \<not> (anchor ls t + 1 < length ls \<and> has_brace (ls ! (anchor ls t + 1))))"

definition wrapped_lines :: "string list \<Rightarrow> int \<Rightarrow> string list" where
  "wrapped_lines ls t =
     list_insert (ls[anchor ls t := open_case (ls ! anchor ls t)]) (block_end ls t)
       (closing_line (indent_of (ls ! anchor ls t)))"

definition wrapped :: "state \<Rightarrow> int \<Rightarrow> state" where
  "wrapped s t =
     \<lparr>lines = wrapped_lines (lines s) t,
      changes = changes s @
        [\<lparr>case_line = int (anchor (lines s) t) + 1, declaration_line = t,
          end_line = int (block_end (lines s) t) + 1\<rparr>],
      modified_lines = modified_lines s \<union>
        (\<lambda>i. int i + 1) ` set [anchor (lines s) t..<block_end (lines s) t + 2]\<rparr>"

text \<open>
  The targets of a run that the second half of the first guard skips: within the file
  and already in the set of modified lines when their turn comes.
\<close>

fun absorbed :: "state \<Rightarrow> int list \<Rightarrow> int list" where
  "absorbed s [] = []"
| "absorbed s (t # ts) =
     (case process_target s t of
        Inl e \<Rightarrow> []
      | Inr s' \<Rightarrow>
          (if t \<le> int (length (lines s)) \<and> t \<in> modified_lines s then [t] else [])
          @ absorbed s' ts)"

text \<open>
  A line as \<open>readlines\<close> gives it: not empty, no carriage return, and a newline at most
  as its last character; and a line that ends in a newline.
\<close>

definition clean_line :: "string \<Rightarrow> bool" where
  "clean_line l = (l \<noteq> [] \<and> CHR 0x0D \<notin> set l \<and> CHR 0x0A \<notin> set (butlast l))"

definition terminated :: "string \<Rightarrow> bool" where
  "terminated l = (l \<noteq> [] \<and> last l = CHR 0x0A)"

text \<open>
  The lines of a file during a run: every line is as \<open>readlines\<close> gives it, and after a
  line without a final newline there are only closing lines.
\<close>

definition tidy :: "string list \<Rightarrow> bool" where
  "tidy L =
     ((\<forall>l\<in>set L. clean_line l)
      \<and> (\<forall>i j. i < j \<and> j < length L \<and> \<not> terminated (L ! i) \<longrightarrow> L ! j \<in> range closing_line))"

section \<open>fix-no-explicit-any.py: \<open>fix_file\<close>\<close>




















section \<open>Example files\<close>

text \<open>The four lines of the first scenario, as \<open>readlines\<close> returns them, and their file.\<close>

definition scenario_lines :: "string list" where
  "scenario_lines =
     [''  case 'x':\<newline>'',
      ''    const y = 1;\<newline>'',
      ''    doSomething(y);\<newline>'',
      ''    break;\<newline>'']"

definition scenario_world :: world where
  "scenario_world = \<lparr>files = [''f.ts'' \<mapsto> concat scenario_lines], events = []\<rparr>"

text \<open>The state of the loop after the one target of the first scenario.\<close>

definition scenario_state :: state where
  "scenario_state =
     \<lparr>lines =
        [''  case 'x': {\<newline>'',
         ''    const y = 1;\<newline>'',
         ''    doSomething(y);\<newline>'',
         ''    break;\<newline>'',
         ''      }\<newline>''],
      changes = [\<lparr>case_line = 1, declaration_line = 2, end_line = 5\<rparr>],
      modified_lines = {1, 2, 3, 4, 5, 6}\<rparr>"

text \<open>A file of ten lines.\<close>

definition ten_lines :: "string list" where
  "ten_lines = replicate 10 ''x\<newline>''"

text \<open>A case label nested in the body of another, deeper than it, with a declaration each.\<close>

definition nested_lines :: "string list" where
  "nested_lines =
     [''case 1:\<newline>'',
      ''  let a;\<newline>'',
      ''  case 2:\<newline>'',
      ''  let b;\<newline>'']"





section \<open>The two scans and one iteration of the loop\<close>

declare find_case.simps [simp del] find_end.simps [simp del]

lemma find_case_neg: "i < 0 \<Longrightarrow> find_case ls i = i"
  by (subst find_case.simps) simp

lemma find_case_le: "find_case ls i \<le> i"
proof (induction ls i rule: find_case.induct)
  case (1 ls i)
  show ?case
  proof (cases "0 \<le> i \<and> \<not> is_case_label (ls ! nat i)")
    case True
    then have "find_case ls (i - 1) \<le> i - 1" using 1 by simp
    then show ?thesis using True by (subst find_case.simps) simp
  next
    case False
    then show ?thesis by (subst find_case.simps) auto
  qed
qed

lemma find_end_unfold:
  "find_end ls ind i =
     (if i < length ls
      then (if indent_of (ls ! i) \<le> ind \<and> is_block_boundary (ls ! i) then i
            else if ends_with_exit (ls ! i) then i + 1
            else find_end ls ind (i + 1))
      else i)"
  by (subst find_end.simps) (simp add: Let_def)

lemma find_case_ge: "- 1 \<le> i \<Longrightarrow> - 1 \<le> find_case ls i"
proof (induction ls i rule: find_case.induct)
  case (1 ls i)
  show ?case
  proof (cases "0 \<le> i \<and> \<not> is_case_label (ls ! nat i)")
    case True
    then have "- 1 \<le> find_case ls (i - 1)" using 1 by simp
    then show ?thesis using True by (subst find_case.simps) simp
  next
    case False
    then show ?thesis using 1(2) by (subst find_case.simps) auto
  qed
qed

lemma find_case_label: "0 \<le> find_case ls i \<Longrightarrow> is_case_label (ls ! nat (find_case ls i))"
proof (induction ls i rule: find_case.induct)
  case (1 ls i)
  show ?case
  proof (cases "0 \<le> i")
    case True
    show ?thesis
    proof (cases "is_case_label (ls ! nat i)")
      case True
      with \<open>0 \<le> i\<close> have "find_case ls i = i" by (subst find_case.simps) simp
      with True show ?thesis by simp
    next
      case False
      with \<open>0 \<le> i\<close> have eq: "find_case ls i = find_case ls (i - 1)"
        by (subst find_case.simps) simp
      with 1 False \<open>0 \<le> i\<close> show ?thesis by simp
    qed
  next
    case False
    then have "find_case ls i = i" by (simp add: find_case_neg)
    with False 1(2) show ?thesis by simp
  qed
qed

lemma find_case_nearest:
  "find_case ls i < j \<Longrightarrow> j \<le> i \<Longrightarrow> 0 \<le> j \<Longrightarrow> \<not> is_case_label (ls ! nat j)"
proof (induction ls i rule: find_case.induct)
  case (1 ls i)
  from 1(3,4) have i0: "0 \<le> i" by simp
  show ?case
  proof (cases "is_case_label (ls ! nat i)")
    case True
    with i0 have "find_case ls i = i" by (subst find_case.simps) simp
    with 1(2,3) show ?thesis by simp
  next
    case False
    with i0 have eq: "find_case ls i = find_case ls (i - 1)"
      by (subst find_case.simps) simp
    show ?thesis
    proof (cases "j = i")
      case True
      with False show ?thesis by simp
    next
      case False
      with 1(3) have "j \<le> i - 1" by simp
      with 1(1)[OF i0 \<open>\<not> is_case_label (ls ! nat i)\<close>] 1(2) 1(4) eq show ?thesis by simp
    qed
  qed
qed

text \<open>find_case is determined by the labels at the indices up to the start\<close>
lemma find_case_cong:
  "(\<And>j. 0 \<le> j \<Longrightarrow> j \<le> i \<Longrightarrow> is_case_label (ls ! nat j) = is_case_label (ls' ! nat j))
   \<Longrightarrow> find_case ls i = find_case ls' i"
proof (induction ls i rule: find_case.induct)
  case (1 ls i)
  show ?case
  proof (cases "0 \<le> i")
    case True
    have same: "is_case_label (ls ! nat i) = is_case_label (ls' ! nat i)"
      using 1(2)[of i] True by simp
    show ?thesis
    proof (cases "is_case_label (ls ! nat i)")
      case True
      with same \<open>0 \<le> i\<close> show ?thesis
        by (subst find_case.simps, subst (2) find_case.simps) simp
    next
      case False
      have "find_case ls (i - 1) = find_case ls' (i - 1)"
        using 1(1)[OF True False] 1(2) by simp
      with False same True show ?thesis
        by (subst find_case.simps, subst (2) find_case.simps) simp
    qed
  next
    case False
    then show ?thesis by (simp add: find_case_neg)
  qed
qed

lemma find_end_ge: "i \<le> find_end ls ind i"
proof (induction ls ind i rule: find_end.induct)
  case (1 ls ind i)
  show ?case
  proof (cases "i < length ls \<and> \<not> (indent_of (ls ! i) \<le> ind \<and> is_block_boundary (ls ! i)) \<and> \<not> ends_with_exit (ls ! i)")
    case True
    then have "i + 1 \<le> find_end ls ind (i + 1)" using 1 by (simp add: Let_def)
    moreover have "find_end ls ind i = find_end ls ind (i + 1)"
      using True by (subst find_end_unfold) auto
    ultimately show ?thesis by simp
  next
    case False
    then show ?thesis by (subst find_end_unfold) auto
  qed
qed

lemma find_end_le: "i \<le> length ls \<Longrightarrow> find_end ls ind i \<le> length ls"
proof (induction ls ind i rule: find_end.induct)
  case (1 ls ind i)
  show ?case
  proof (cases "i < length ls \<and> \<not> (indent_of (ls ! i) \<le> ind \<and> is_block_boundary (ls ! i)) \<and> \<not> ends_with_exit (ls ! i)")
    case True
    then have "find_end ls ind (i + 1) \<le> length ls" using 1 by (simp add: Let_def)
    moreover have "find_end ls ind i = find_end ls ind (i + 1)"
      using True by (subst find_end_unfold) auto
    ultimately show ?thesis by simp
  next
    case False
    then show ?thesis using 1(2) by (subst find_end_unfold) auto
  qed
qed

lemma process_target_eq:
  "process_target s t =
     (if int (length (lines s)) < t \<or> t \<in> modified_lines s then Inr s
      else if t - 1 < - int (length (lines s)) then Inl IndexError
      else if wraps (lines s) t then Inr (wrapped s t)
      else Inr s)"
proof (cases "int (length (lines s)) < t \<or> t \<in> modified_lines s")
  case True
  then show ?thesis by (auto simp: process_target_def)
next
  case guard: False
  show ?thesis
  proof (cases "1 \<le> t")
    case True
    with guard have idx: "py_index (lines s) (t - 1) = Inr (lines s ! nat (t - 1))"
      by (simp add: py_index_def)
    have start: "nat (t - 1 + 1) = nat t" by simp
    have t2: "t - 1 - 1 = t - 2" by simp
    show ?thesis using guard True
      unfolding process_target_def
      by (simp add: idx Let_def wraps_def wrapped_def wrapped_lines_def anchor_def block_end_def t2 not_less)
  next
    case False
    then have neg: "find_case (lines s) (t - 1 - 1) < 0"
      using find_case_le[of "lines s" "t - 1 - 1"] by simp
    from False have nw: "\<not> wraps (lines s) t" by (simp add: wraps_def)
    show ?thesis using guard False neg nw
      unfolding process_target_def
      by (auto simp: py_index_def Let_def split: sum.splits)
  qed
qed


lemma wraps_anchor_less: "wraps ls t \<Longrightarrow> int (anchor ls t) + 2 \<le> t"
  using find_case_le[of ls "t - 2"] by (simp add: wraps_def anchor_def)

lemma wraps_anchor_label: "wraps ls t \<Longrightarrow> is_case_label (ls ! anchor ls t)"
  using find_case_label[of ls "t - 2"] by (simp add: wraps_def anchor_def)

lemma wraps_anchor_nearest:
  "wraps ls t \<Longrightarrow> anchor ls t < j \<Longrightarrow> int j + 2 \<le> t \<Longrightarrow> \<not> is_case_label (ls ! j)"
  using find_case_nearest[of ls "t - 2" "int j"] by (simp add: wraps_def anchor_def)

lemma wraps_block_end_ge: "nat t \<le> block_end ls t"
  by (simp add: block_end_def find_end_ge)

lemma wraps_block_end_le: "wraps ls t \<Longrightarrow> block_end ls t \<le> length ls"
proof -
  assume "wraps ls t"
  then have "t \<le> int (length ls)" by (simp add: wraps_def)
  then have "nat t \<le> length ls" by linarith
  then show ?thesis unfolding block_end_def by (rule find_end_le)
qed

lemma length_list_insert: "length (list_insert xs i x) = Suc (length xs)"
  by (simp add: list_insert_def)

lemma length_wrapped_lines: "length (wrapped_lines ls t) = Suc (length ls)"
  by (simp add: wrapped_lines_def length_list_insert)

lemma nth_list_insert:
  "i \<le> length xs \<Longrightarrow> list_insert xs i x ! j = (if j < i then xs ! j else if j = i then x else xs ! (j - 1))"
  by (auto simp: list_insert_def nth_append nth_Cons' min_def)

lemma nth_wrapped_lines:
  assumes "wraps ls t"
  shows "wrapped_lines ls t ! j =
           (if j = anchor ls t then open_case (ls ! anchor ls t)
            else if j < block_end ls t then ls ! j
            else if j = block_end ls t then closing_line (indent_of (ls ! anchor ls t))
            else ls ! (j - 1))"
proof -
  have a: "int (anchor ls t) + 2 \<le> t" using assms by (rule wraps_anchor_less)
  have b: "nat t \<le> block_end ls t" by (rule wraps_block_end_ge)
  have c: "block_end ls t \<le> length ls" using assms by (rule wraps_block_end_le)
  from a b have ab: "anchor ls t < block_end ls t" by linarith
  with c have al: "anchor ls t < length ls" by simp
  show ?thesis
    unfolding wrapped_lines_def using ab al c
    by (simp add: nth_list_insert nth_list_update)
qed

lemma modified_interval:
  "(\<lambda>i. int i + 1) ` set [a..<e + 2] = {int a + 1..int e + 2}"
proof (rule set_eqI)
  fix x
  show "x \<in> (\<lambda>i. int i + 1) ` set [a..<e + 2] \<longleftrightarrow> x \<in> {int a + 1..int e + 2}"
  proof
    assume "x \<in> (\<lambda>i. int i + 1) ` set [a..<e + 2]"
    then show "x \<in> {int a + 1..int e + 2}" by auto
  next
    assume h: "x \<in> {int a + 1..int e + 2}"
    then have "nat (x - 1) \<in> set [a..<e + 2]" by auto
    moreover have "x = int (nat (x - 1)) + 1" using h by auto
    ultimately show "x \<in> (\<lambda>i. int i + 1) ` set [a..<e + 2]" by (rule rev_image_eqI)
  qed
qed

lemma modified_lines_wrapped:
  "modified_lines (wrapped s t) =
     modified_lines s \<union> {int (anchor (lines s) t) + 1..int (block_end (lines s) t) + 2}"
  unfolding wrapped_def modified_interval by simp

lemma lines_wrapped: "lines (wrapped s t) = wrapped_lines (lines s) t"
  by (simp add: wrapped_def)

lemma changes_wrapped:
  "changes (wrapped s t) = changes s @
     [\<lparr>case_line = int (anchor (lines s) t) + 1, declaration_line = t,
       end_line = int (block_end (lines s) t) + 1\<rparr>]"
  by (simp add: wrapped_def)

lemma wrapped_neq: "wrapped s t \<noteq> s"
proof
  assume "wrapped s t = s"
  then have "length (changes (wrapped s t)) = length (changes s)" by simp
  then show False by (simp add: changes_wrapped)
qed

lemma process_target_Inr:
  assumes "process_target s t = Inr s'"
  shows "s' = s \<or> (t \<notin> modified_lines s \<and> wraps (lines s) t \<and> s' = wrapped s t)"
  using assms by (auto simp: process_target_eq split: if_splits)


section \<open>Facts about the whole loop\<close>

lemma process_target_length:
  "process_target s t = Inr s' \<Longrightarrow>
     length (lines s') + length (changes s) = length (lines s) + length (changes s')"
  by (auto dest!: process_target_Inr simp: lines_wrapped changes_wrapped length_wrapped_lines)

lemma process_targets_length:
  "process_targets s ts = Inr s' \<Longrightarrow>
     length (lines s') + length (changes s) = length (lines s) + length (changes s')"
proof (induction ts arbitrary: s)
  case Nil
  then show ?case by simp
next
  case (Cons t ts)
  then obtain s1 where s1: "process_target s t = Inr s1" and rest: "process_targets s1 ts = Inr s'"
    by (auto split: sum.splits)
  from process_target_length[OF s1] Cons.IH[OF rest] show ?case by simp
qed

lemma fix_case_block_returns:
  "files w p = Some content \<Longrightarrow> fix_lines (readlines content) ts = Inr s \<Longrightarrow>
     snd (fix_case_block w p ts) = Inr (length (changes s))"
  by (simp add: fix_case_block_def)

lemma process_target_beyond: "int (length (lines s)) < t \<Longrightarrow> process_target s t = Inr s"
  by (simp add: process_target_def)

lemma process_targets_beyond:
  "\<forall>t\<in>set ts. int (length (lines s)) < t \<Longrightarrow> process_targets s ts = Inr s"
  by (induction ts) (simp_all add: process_target_beyond)

lemma process_target_modified: "t \<in> modified_lines s \<Longrightarrow> process_target s t = Inr s"
  by (simp add: process_target_def)

lemma process_target_modified_mono:
  "process_target s t = Inr s' \<Longrightarrow> modified_lines s \<subseteq> modified_lines s'"
  by (auto dest!: process_target_Inr simp: modified_lines_wrapped)

lemma process_targets_modified_mono:
  "process_targets s ts = Inr s' \<Longrightarrow> modified_lines s \<subseteq> modified_lines s'"
proof (induction ts arbitrary: s)
  case Nil
  then show ?case by simp
next
  case (Cons t ts)
  then obtain s1 where s1: "process_target s t = Inr s1" and rest: "process_targets s1 ts = Inr s'"
    by (auto split: sum.splits)
  from process_target_modified_mono[OF s1] Cons.IH[OF rest] show ?case by blast
qed

lemma process_target_appended:
  assumes "process_target s t = Inr s'" and "changes s' = changes s @ [c]"
  shows "t \<notin> modified_lines s \<and> wraps (lines s) t \<and> s' = wrapped s t
         \<and> c = \<lparr>case_line = int (anchor (lines s) t) + 1, declaration_line = t,
                 end_line = int (block_end (lines s) t) + 1\<rparr>"
proof -
  from process_target_Inr[OF assms(1)] assms(2)
  have w: "t \<notin> modified_lines s \<and> wraps (lines s) t \<and> s' = wrapped s t" by auto
  with assms(2) show ?thesis by (simp add: changes_wrapped)
qed

lemma process_target_total: "1 \<le> t \<Longrightarrow> \<exists>s'. process_target s t = Inr s'"
proof -
  assume "1 \<le> t"
  then have "\<not> t - 1 < - int (length (lines s))" by linarith
  then show ?thesis by (simp add: process_target_eq)
qed

lemma process_targets_total:
  "\<forall>t\<in>set ts. 1 \<le> t \<Longrightarrow> \<exists>s'. process_targets s ts = Inr s'"
proof (induction ts arbitrary: s)
  case Nil
  show ?case by simp
next
  case (Cons t ts)
  then have "1 \<le> t" and rest: "\<forall>u\<in>set ts. 1 \<le> u" by simp_all
  from process_target_total[OF \<open>1 \<le> t\<close>] obtain s1 where s1: "process_target s t = Inr s1"
    by blast
  from Cons.IH[OF rest] obtain s' where "process_targets s1 ts = Inr s'" by blast
  with s1 show ?case by simp
qed

section \<open>The rewritten case line\<close>

lemma space_not_word: "is_space c \<Longrightarrow> \<not> is_word c"
  by (auto simp: is_space_def is_word_def Let_def)

lemma rstrip_split: "\<exists>w. x = rstrip x @ w \<and> (\<forall>c\<in>set w. is_space c)"
proof -
  have "rev (takeWhile is_space (rev x) @ dropWhile is_space (rev x)) = x"
    by (simp only: takeWhile_dropWhile_id rev_rev_ident)
  then have "x = rstrip x @ rev (takeWhile is_space (rev x))"
    by (simp only: rev_append rstrip_def)
  moreover have "\<forall>c\<in>set (rev (takeWhile is_space (rev x))). is_space c"
    by (auto dest: set_takeWhileD)
  ultimately show ?thesis by blast
qed

lemma rstrip_keeps:
  assumes "i < length x" and "\<not> is_space (x ! i)"
  shows "i < length (rstrip x)"
proof (rule ccontr)
  assume "\<not> i < length (rstrip x)"
  then have ge: "length (rstrip x) \<le> i" by simp
  obtain w where x: "x = rstrip x @ w" and w: "\<forall>c\<in>set w. is_space c"
    using rstrip_split by blast
  have "x ! i = (rstrip x @ w) ! i" using x by simp
  also have "\<dots> = w ! (i - length (rstrip x))" using ge by (simp add: nth_append)
  finally have xi: "x ! i = w ! (i - length (rstrip x))" .
  have "length x = length (rstrip x) + length w" using x by (metis length_append)
  with assms(1) ge have "i - length (rstrip x) < length w" by simp
  with w have "is_space (w ! (i - length (rstrip x)))" by simp
  with xi assms(2) show False by simp
qed

lemma rstrip_nth: "i < length (rstrip x) \<Longrightarrow> rstrip x ! i = x ! i"
proof -
  assume a: "i < length (rstrip x)"
  obtain w where x: "x = rstrip x @ w" using rstrip_split by blast
  have "x ! i = (rstrip x @ w) ! i" using x by simp
  with a show ?thesis by (simp add: nth_append)
qed

lemma length_rstrip_le: "length (rstrip x) \<le> length x"
  by (simp add: rstrip_def length_dropWhile_le[of is_space "rev x", simplified])

lemma open_case_eq: "open_case x = rstrip x @ '' {\<newline>''"
  by (simp add: open_case_def)

lemma has_brace_open_case: "has_brace (open_case x)"
  by (simp add: open_case_eq has_brace_def)


lemma lstrip_append_spaces:
  "\<forall>c\<in>set ws. is_space c \<Longrightarrow> lstrip (ws @ r) = lstrip r"
  by (simp add: lstrip_def dropWhile_append)

lemma lstrip_split: "\<exists>ws. x = ws @ lstrip x \<and> (\<forall>c\<in>set ws. is_space c)"
proof -
  have "x = takeWhile is_space x @ lstrip x" by (simp add: lstrip_def)
  moreover have "\<forall>c\<in>set (takeWhile is_space x). is_space c" by (auto dest: set_takeWhileD)
  ultimately show ?thesis by blast
qed

lemma lstrip_nonspace: "r \<noteq> [] \<Longrightarrow> \<not> is_space (hd r) \<Longrightarrow> lstrip r = r"
  by (cases r) (simp_all add: lstrip_def)

lemma case_prefix_iff:
  "case_prefix r \<longleftrightarrow> (\<exists>d z. r = ''case'' @ d # z \<and> is_space d)"
proof
  assume cp: "case_prefix r"
  have l4: "length ''case'' = 4" by simp
  from cp have t: "take 4 r = ''case''" and l: "4 < length r" and sp: "is_space (r ! 4)"
    unfolding case_prefix_def literal_at_def l4 by simp_all
  have "r = take 4 r @ drop 4 r" by simp
  also have "drop 4 r = r ! 4 # drop 5 r" using l Cons_nth_drop_Suc[of 4 r] by simp
  finally have "r = ''case'' @ r ! 4 # drop 5 r" using t by simp
  with sp show "\<exists>d z. r = ''case'' @ d # z \<and> is_space d" by blast
next
  assume "\<exists>d z. r = ''case'' @ d # z \<and> is_space d"
  then show "case_prefix r" by (auto simp: case_prefix_def literal_at_def)
qed

lemma not_space_e: "\<not> is_space CHR ''e''" and not_space_c: "\<not> is_space CHR ''c''"
  and space_space: "is_space CHR '' ''"
  by (simp_all add: is_space_def)

lemma is_case_label_open_case:
  assumes "is_case_label x"
  shows "is_case_label (open_case x)"
proof -
  obtain ws where x: "x = ws @ lstrip x" and ws: "\<forall>c\<in>set ws. is_space c"
    using lstrip_split by blast
  from assms obtain d z where r: "lstrip x = ''case'' @ d # z" and d: "is_space d"
    by (auto simp: is_case_label_def case_prefix_iff)
  let ?n = "length ws"
  have xeq: "x = ws @ ''case'' @ d # z" using x r by simp
  have len: "?n + 3 < length x" by (subst xeq) simp
  have e: "x ! (?n + 3) = CHR ''e''" by (subst xeq) (simp add: nth_append)
  have keep: "?n + 3 < length (rstrip x)"
    using len e by (intro rstrip_keeps) (simp_all add: not_space_e)
  obtain w where split: "x = rstrip x @ w" using rstrip_split by blast
  have pre: "take (?n + 4) (rstrip x) = take (?n + 4) x"
    using keep by (subst (2) split) simp
  have "take (?n + 4) x = ws @ ''case''" by (subst xeq) simp
  with pre have pre': "take (?n + 4) (rstrip x) = ws @ ''case''" by simp
  have "rstrip x = take (?n + 4) (rstrip x) @ drop (?n + 4) (rstrip x)" by simp
  with pre' have rs: "rstrip x = (ws @ ''case'') @ drop (?n + 4) (rstrip x)" by simp
  let ?tail = "drop (?n + 4) (rstrip x) @ '' {\<newline>''"
  have oc: "open_case x = ws @ ''case'' @ ?tail"
    by (subst open_case_eq, subst rs) simp
  have tail: "\<exists>d' z'. ?tail = d' # z' \<and> is_space d'"
  proof (cases "drop (?n + 4) (rstrip x)")
    case Nil
    then show ?thesis by (simp add: space_space)
  next
    case (Cons a as)
    then have l4: "?n + 4 < length (rstrip x)" by (cases "?n + 4 < length (rstrip x)") simp_all
    have "a = rstrip x ! (?n + 4)" using Cons l4 by (metis hd_drop_conv_nth list.sel(1))
    also have "\<dots> = x ! (?n + 4)" using l4 by (rule rstrip_nth)
    also have "\<dots> = d" by (subst xeq) (simp add: nth_append)
    finally have "a = d" .
    with Cons d show ?thesis by simp
  qed
  then obtain d' z' where t: "?tail = d' # z'" and d': "is_space d'" by blast
  have "lstrip (open_case x) = lstrip (''case'' @ ?tail)"
    unfolding oc using ws by (rule lstrip_append_spaces)
  also have "\<dots> = ''case'' @ ?tail"
    by (rule lstrip_nonspace) (simp_all add: not_space_c)
  finally have "lstrip (open_case x) = ''case'' @ d' # z'" using t by simp
  with d' show ?thesis by (auto simp: is_case_label_def case_prefix_iff)
qed

lemma has_lexical_decl_iff:
  "has_lexical_decl s \<longleftrightarrow> (\<exists>i\<le>length s. decl_at s i)"
proof -
  have "set [0..<Suc (length s)] = {i. i \<le> length s}" by (simp only: set_upt) auto
  then show ?thesis unfolding has_lexical_decl_def list_ex_iff by blast
qed

lemma decl_at_iff:
  "decl_at s i \<longleftrightarrow>
     word_boundary s i \<and>
     (\<exists>k\<in>{''const'', ''let'', ''var''}. literal_at s i k \<and> word_boundary s (i + length k))"
  by (simp add: decl_at_def)

lemma literal_at_nth:
  "literal_at s i k \<Longrightarrow> j < length k \<Longrightarrow> i + j < length s \<and> s ! (i + j) = k ! j"
proof -
  assume a: "literal_at s i k" and j: "j < length k"
  from a have t: "take (length k) (drop i s) = k" by (simp add: literal_at_def)
  then have "length (take (length k) (drop i s)) = length k" by simp
  then have len: "length k \<le> length s - i" by simp
  with j have l: "i + j < length s" by simp
  have "k ! j = take (length k) (drop i s) ! j" using t by simp
  also have "\<dots> = s ! (i + j)" using j l by simp
  finally show ?thesis using l by simp
qed

lemma literal_at_prefix:
  "i + length k \<le> length y \<Longrightarrow> literal_at (y @ t) i k = literal_at y i k"
  by (simp add: literal_at_def)

lemma word_boundary_prefix:
  assumes "m \<le> length y" and "t1 = [] \<or> \<not> is_word (hd t1)" and "t2 = [] \<or> \<not> is_word (hd t2)"
  shows "word_boundary (y @ t1) m = word_boundary (y @ t2) m"
proof -
  have before: "word_before (y @ t) m = word_before y m" for t
    using assms(1) by (cases m) (auto simp: word_before_def nth_append)
  have after: "word_after (y @ t) m = word_after y m" if "t = [] \<or> \<not> is_word (hd t)" for t
  proof (cases "m < length y")
    case True
    then show ?thesis by (simp add: word_after_def nth_append)
  next
    case False
    with assms(1) have m: "m = length y" by simp
    show ?thesis using that by (cases t) (simp_all add: word_after_def m)
  qed
  show ?thesis by (simp add: word_boundary_def before after assms)
qed

lemma keyword_last_word:
  "k \<in> {''const'', ''let'', ''var''} \<Longrightarrow> k \<noteq> [] \<and> is_word (last k)"
  by (auto simp: is_word_def)

lemma has_lexical_decl_open_case:
  assumes "has_lexical_decl (open_case x)"
  shows "has_lexical_decl x"
proof -
  let ?y = "rstrip x" and ?t = "'' {\<newline>''"
  obtain w where x: "x = ?y @ w" and w: "\<forall>c\<in>set w. is_space c"
    using rstrip_split by blast
  have tw: "w = [] \<or> \<not> is_word (hd w)"
    using w by (cases w) (simp_all add: space_not_word)
  have tt: "?t = [] \<or> \<not> is_word (hd ?t)" by (simp add: is_word_def)
  from assms obtain i k where i: "i \<le> length (?y @ ?t)"
    and b1: "word_boundary (?y @ ?t) i"
    and k: "k \<in> {''const'', ''let'', ''var''}"
    and lit: "literal_at (?y @ ?t) i k"
    and b2: "word_boundary (?y @ ?t) (i + length k)"
    unfolding has_lexical_decl_iff decl_at_iff open_case_eq by blast
  from keyword_last_word[OF k] have kne: "k \<noteq> []" and kl: "is_word (last k)" by simp_all
  have fit: "i + length k \<le> length ?y"
  proof (rule ccontr)
    assume "\<not> i + length k \<le> length ?y"
    then have over: "length ?y \<le> i + (length k - 1)" using kne by (cases k) simp_all
    have j: "length k - 1 < length k" using kne by simp
    from literal_at_nth[OF lit j]
    have l: "i + (length k - 1) < length (?y @ ?t)"
      and c: "(?y @ ?t) ! (i + (length k - 1)) = k ! (length k - 1)" by simp_all
    have "k ! (length k - 1) = last k" using kne by (simp add: last_conv_nth)
    with c kl have word: "is_word ((?y @ ?t) ! (i + (length k - 1)))" by simp
    have "(?y @ ?t) ! (i + (length k - 1)) = ?t ! (i + (length k - 1) - length ?y)"
      using over by (simp add: nth_append)
    moreover have "i + (length k - 1) - length ?y < length ?t" using l over by simp
    then have "?t ! (i + (length k - 1) - length ?y) \<in> set ?t" by (rule nth_mem)
    ultimately have "(?y @ ?t) ! (i + (length k - 1)) \<in> set ?t" by simp
    then have "\<not> is_word ((?y @ ?t) ! (i + (length k - 1)))"
      by (auto simp: is_word_def)
    with word show False by simp
  qed
  then have ile: "i \<le> length ?y" by simp
  have "word_boundary (?y @ w) i" using b1 word_boundary_prefix[OF ile tt tw] by simp
  moreover have "literal_at (?y @ w) i k"
    using lit fit by (simp add: literal_at_prefix)
  moreover have "word_boundary (?y @ w) (i + length k)"
    using b2 word_boundary_prefix[OF fit tt tw] by simp
  moreover have "i \<le> length (?y @ w)" using ile by simp
  ultimately have "\<exists>i\<le>length (?y @ w). decl_at (?y @ w) i"
    unfolding decl_at_iff using k by blast
  then show ?thesis unfolding has_lexical_decl_iff using x by simp
qed

section \<open>Wrapping one block and the targets at or above it\<close>

lemma wrapped_lines_before:
  assumes "wraps ls u" and "int j < u"
  shows "wrapped_lines ls u ! j = (if j = anchor ls u then open_case (ls ! j) else ls ! j)"
proof -
  have "nat u \<le> block_end ls u" by (rule wraps_block_end_ge)
  with assms(2) have "j < block_end ls u" by linarith
  then show ?thesis by (simp add: nth_wrapped_lines[OF assms(1)])
qed

lemma wrapped_lines_label:
  assumes "wraps ls u" and "int j < u"
  shows "is_case_label (wrapped_lines ls u ! j) = is_case_label (ls ! j)"
proof (cases "j = anchor ls u")
  case True
  have l: "is_case_label (ls ! anchor ls u)" using assms(1) by (rule wraps_anchor_label)
  then have "is_case_label (open_case (ls ! anchor ls u))" by (rule is_case_label_open_case)
  moreover have "wrapped_lines ls u ! j = open_case (ls ! anchor ls u)"
    using wrapped_lines_before[OF assms] True by simp
  ultimately show ?thesis using l True by simp
next
  case False
  then show ?thesis by (simp add: wrapped_lines_before[OF assms])
qed

lemma find_case_wrapped_lines:
  assumes "wraps ls u" and "i < u"
  shows "find_case (wrapped_lines ls u) i = find_case ls i"
proof (rule find_case_cong)
  fix j :: int
  assume "0 \<le> j" and "j \<le> i"
  with assms(2) have "int (nat j) < u" by simp
  from wrapped_lines_label[OF assms(1) this]
  show "is_case_label (wrapped_lines ls u ! nat j) = is_case_label (ls ! nat j)" .
qed

lemma wrapped_lines_anchor:
  assumes "wraps ls u"
  shows "wrapped_lines ls u ! anchor ls u = open_case (ls ! anchor ls u)"
proof -
  have "int (anchor ls u) < u" using wraps_anchor_less[OF assms] by simp
  from wrapped_lines_before[OF assms this] show ?thesis by simp
qed

lemma wrapped_lines_other:
  assumes "wraps ls u" and "int j < u" and "j \<noteq> anchor ls u"
  shows "wrapped_lines ls u ! j = ls ! j"
  using wrapped_lines_before[OF assms(1,2)] assms(3) by simp

lemma wrapped_lines_no_brace:
  assumes "wraps ls u" and "int j < u" and "\<not> has_brace (wrapped_lines ls u ! j)"
  shows "j \<noteq> anchor ls u \<and> \<not> has_brace (ls ! j)"
proof -
  have ne: "j \<noteq> anchor ls u"
  proof
    assume "j = anchor ls u"
    then have "wrapped_lines ls u ! j = open_case (ls ! anchor ls u)"
      by (simp only: wrapped_lines_anchor[OF assms(1)])
    then have "has_brace (wrapped_lines ls u ! j)" by (simp only: has_brace_open_case)
    with assms(3) show False by contradiction
  qed
  from wrapped_lines_other[OF assms(1,2) ne] assms(3) have "\<not> has_brace (ls ! j)"
    by simp
  with ne show ?thesis by (rule conjI)
qed

lemma wrapped_lines_decl:
  assumes "wraps ls u" and "int j < u" and "has_lexical_decl (wrapped_lines ls u ! j)"
  shows "has_lexical_decl (ls ! j)"
proof (cases "j = anchor ls u")
  case True
  then have "wrapped_lines ls u ! j = open_case (ls ! j)"
    by (simp only: wrapped_lines_anchor[OF assms(1)])
  with assms(3) have "has_lexical_decl (open_case (ls ! j))" by simp
  then show ?thesis by (rule has_lexical_decl_open_case)
next
  case False
  from wrapped_lines_other[OF assms(1,2) False] assms(3) show ?thesis by simp
qed

lemma wraps_parts:
  "wraps ls t \<Longrightarrow> 1 \<le> t"
  "wraps ls t \<Longrightarrow> t \<le> int (length ls)"
  "wraps ls t \<Longrightarrow> has_lexical_decl (ls ! nat (t - 1))"
  "wraps ls t \<Longrightarrow> 0 \<le> find_case ls (t - 2)"
  "wraps ls t \<Longrightarrow> \<not> has_brace (ls ! anchor ls t)"
  "wraps ls t \<Longrightarrow> anchor ls t + 1 < length ls \<Longrightarrow> \<not> has_brace (ls ! (anchor ls t + 1))"
  unfolding wraps_def by blast+

lemma wrapsI:
  "1 \<le> t \<Longrightarrow> t \<le> int (length ls) \<Longrightarrow> has_lexical_decl (ls ! nat (t - 1)) \<Longrightarrow>
   0 \<le> find_case ls (t - 2) \<Longrightarrow> \<not> has_brace (ls ! anchor ls t) \<Longrightarrow>
   \<not> has_brace (ls ! (anchor ls t + 1)) \<Longrightarrow> wraps ls t"
  unfolding wraps_def by blast

lemma wraps_after_wrapping:
  assumes u: "wraps ls u" and tu: "t \<le> u" and t: "wraps (wrapped_lines ls u) t"
  shows "wraps ls t \<and> t \<noteq> u"
proof -
  let ?ls' = "wrapped_lines ls u"
  have "t - 2 < u" using tu by simp
  then have fc: "find_case ?ls' (t - 2) = find_case ls (t - 2)"
    by (rule find_case_wrapped_lines[OF u])
  then have an: "anchor ?ls' t = anchor ls t" by (simp only: anchor_def)
  have t1: "1 \<le> t" using t by (rule wraps_parts)
  have kw: "has_lexical_decl (?ls' ! nat (t - 1))" using t by (rule wraps_parts)
  have f0: "0 \<le> find_case ls (t - 2)" using wraps_parts(4)[OF t] fc by simp
  have nb: "\<not> has_brace (?ls' ! anchor ls t)" using wraps_parts(5)[OF t] an by simp
  have ule: "u \<le> int (length ls)" using u by (rule wraps_parts)
  have tle: "t \<le> int (length ls)" using tu ule by (rule order_trans)
  have "find_case ls (t - 2) \<le> t - 2" by (rule find_case_le)
  with f0 have at: "int (anchor ls t) + 2 \<le> t" unfolding anchor_def by linarith
  have j1: "int (nat (t - 1)) < u" using t1 tu by linarith
  have kw': "has_lexical_decl (ls ! nat (t - 1))"
    using u j1 kw by (rule wrapped_lines_decl)
  have j2: "int (anchor ls t) < u" using at tu by linarith
  from wrapped_lines_no_brace[OF u j2 nb]
  have ne: "anchor ls t \<noteq> anchor ls u" and nb': "\<not> has_brace (ls ! anchor ls t)"
    by blast+
  have j3: "int (anchor ls t + 1) < u" using at tu by linarith
  have "length ?ls' = Suc (length ls)" by (rule length_wrapped_lines)
  with at tle have in_new: "anchor ls t + 1 < length ?ls'" by linarith
  then have "anchor ?ls' t + 1 < length ?ls'" by (simp only: an)
  from wraps_parts(6)[OF t this] have nbn: "\<not> has_brace (?ls' ! (anchor ls t + 1))"
    by (simp add: an)
  from wrapped_lines_no_brace[OF u j3 nbn]
  have nb1': "\<not> has_brace (ls ! (anchor ls t + 1))" by blast
  have "wraps ls t" using t1 tle kw' f0 nb' nb1' by (rule wrapsI)
  moreover have "t \<noteq> u" using ne by blast
  ultimately show ?thesis by (rule conjI)
qed

lemma not_wraps_kept:
  assumes "process_target s u = Inr s'" and "t \<le> u" and "\<not> wraps (lines s) t"
  shows "\<not> wraps (lines s') t"
proof -
  from process_target_Inr[OF assms(1)]
  consider "s' = s" | "wraps (lines s) u" "s' = wrapped s u" by blast
  then show ?thesis
  proof cases
    case 1
    with assms(3) show ?thesis by simp
  next
    case 2
    show ?thesis
    proof
      assume "wraps (lines s') t"
      then have "wraps (wrapped_lines (lines s) u) t" by (simp add: 2(2) lines_wrapped)
      from wraps_after_wrapping[OF 2(1) assms(2) this] assms(3) show False by simp
    qed
  qed
qed

lemma not_wraps_kept_run:
  assumes "process_targets s us = Inr s'" and "\<forall>u\<in>set us. t \<le> u" and "\<not> wraps (lines s) t"
  shows "\<not> wraps (lines s') t"
  using assms
proof (induction us arbitrary: s)
  case Nil
  then show ?case by simp
next
  case (Cons u us)
  from Cons.prems(1) obtain s1 where s1: "process_target s u = Inr s1"
    and rest: "process_targets s1 us = Inr s'" by (auto split: sum.splits)
  from Cons.prems(2) have tu: "t \<le> u" and all: "\<forall>u\<in>set us. t \<le> u" by simp_all
  from not_wraps_kept[OF s1 tu Cons.prems(3)] have "\<not> wraps (lines s1) t" .
  from Cons.IH[OF rest all this] show ?case .
qed

lemma process_targets_length_mono:
  "process_targets s ts = Inr s' \<Longrightarrow> length (lines s) \<le> length (lines s')"
proof (induction ts arbitrary: s)
  case Nil
  then show ?case by simp
next
  case (Cons t ts)
  then obtain s1 where s1: "process_target s t = Inr s1" and rest: "process_targets s1 ts = Inr s'"
    by (auto split: sum.splits)
  from process_target_Inr[OF s1] consider "s1 = s" | "s1 = wrapped s t" by blast
  then have "length (lines s) \<le> length (lines s1)"
  proof cases
    case 1
    then show ?thesis by simp
  next
    case 2
    then have "lines s1 = wrapped_lines (lines s) t" by (simp only: lines_wrapped)
    then have "length (lines s1) = Suc (length (lines s))" by (simp only: length_wrapped_lines)
    then show ?thesis by simp
  qed
  with Cons.IH[OF rest] show ?case by simp
qed

lemma settled_run:
  assumes "\<forall>t\<in>set ts. \<not> wraps (lines s) t \<and> - int (length (lines s)) \<le> t - 1"
  shows "process_targets s ts = Inr s"
  using assms
proof (induction ts)
  case Nil
  then show ?case by simp
next
  case (Cons t ts)
  then have "process_target s t = Inr s" by (simp add: process_target_eq)
  moreover have "process_targets s ts = Inr s" using Cons by simp
  ultimately show ?case by simp
qed

lemma process_target_no_decl:
  assumes "py_index (lines s) (t - 1) = Inr line" and "\<not> has_lexical_decl line"
  shows "process_target s t = Inr s"
  using assms by (simp add: process_target_def Let_def)

lemma no_decl_not_wraps:
  assumes "1 \<le> t" and "t \<le> int (length ls) \<longrightarrow> \<not> has_lexical_decl (ls ! nat (t - 1))"
  shows "\<not> wraps ls t \<and> - int (length ls) \<le> t - 1"
proof -
  have "\<not> wraps ls t"
  proof
    assume w: "wraps ls t"
    from wraps_parts(2)[OF w] wraps_parts(3)[OF w] assms(2) show False by blast
  qed
  moreover have "- int (length ls) \<le> t - 1" using assms(1) by linarith
  ultimately show ?thesis by (rule conjI)
qed

section \<open>The loop that leaves out repeated empty lines\<close>








section \<open>The targets a second run can still wrap\<close>

lemma process_target_modified_pos:
  assumes "process_target s t = Inr s'" and "\<forall>m\<in>modified_lines s. 1 \<le> m"
  shows "\<forall>m\<in>modified_lines s'. 1 \<le> m"
proof -
  from process_target_Inr[OF assms(1)] consider "s' = s" | "s' = wrapped s t" by blast
  then show ?thesis
  proof cases
    case 1
    with assms(2) show ?thesis by simp
  next
    case 2
    have "modified_lines s' = modified_lines s
        \<union> {int (anchor (lines s) t) + 1..int (block_end (lines s) t) + 2}"
      unfolding 2 by (rule modified_lines_wrapped)
    with assms(2) show ?thesis by auto
  qed
qed

lemma set_absorbed: "set (absorbed s ts) \<subseteq> set ts"
proof (induction ts arbitrary: s)
  case Nil
  show ?case by simp
next
  case (Cons t ts)
  show ?case
  proof (cases "process_target s t")
    case (Inl e)
    then show ?thesis by simp
  next
    case (Inr s1)
    with Cons[of s1] show ?thesis by auto
  qed
qed

lemma run_settles:
  assumes "sorted ts" and "process_targets s ts = Inr s'" and "\<forall>m\<in>modified_lines s. 1 \<le> m"
  shows "\<forall>t\<in>set ts. (wraps (lines s') t \<longrightarrow> t \<in> set (absorbed s ts))
                    \<and> (1 \<le> t \<or> - int (length (lines s)) \<le> t - 1)"
  using assms
proof (induction ts arbitrary: s)
  case Nil
  then show ?case by simp
next
  case (Cons t ts)
  from Cons.prems(2) obtain s1 where s1: "process_target s t = Inr s1"
    and rest: "process_targets s1 ts = Inr s'" by (auto split: sum.splits)
  from Cons.prems(1) have srt: "sorted ts" and ge: "\<forall>u\<in>set ts. t \<le> u" by simp_all
  have pos1: "\<forall>m\<in>modified_lines s1. 1 \<le> m"
    using s1 Cons.prems(3) by (rule process_target_modified_pos)
  have tail: "\<forall>u\<in>set ts. (wraps (lines s') u \<longrightarrow> u \<in> set (absorbed s1 ts))
                    \<and> (1 \<le> u \<or> - int (length (lines s1)) \<le> u - 1)"
    by (rule Cons.IH[OF srt rest pos1])
  have ab: "absorbed s (t # ts) =
      (if t \<le> int (length (lines s)) \<and> t \<in> modified_lines s then [t] else []) @ absorbed s1 ts"
    using s1 by simp
  \<comment> \<open>the head\<close>
  have head_idx: "1 \<le> t \<or> - int (length (lines s)) \<le> t - 1"
  proof (cases "int (length (lines s)) < t \<or> t \<in> modified_lines s")
    case True
    then have "1 \<le> t" using Cons.prems(3) by auto
    then show ?thesis by simp
  next
    case False
    have "- int (length (lines s)) \<le> t - 1"
    proof (rule ccontr)
      assume "\<not> - int (length (lines s)) \<le> t - 1"
      with False have "process_target s t = Inl IndexError" by (simp add: process_target_eq)
      with s1 show False by simp
    qed
    then show ?thesis by simp
  qed
  have head: "wraps (lines s') t \<longrightarrow> t \<in> set (absorbed s (t # ts))"
  proof (cases "t \<le> int (length (lines s)) \<and> t \<in> modified_lines s")
    case True
    then show ?thesis by (simp add: ab del: absorbed.simps)
  next
    case na: False
    have now: "\<not> wraps (lines s1) t"
    proof (cases "wraps (lines s) t")
      case True
      then have le: "t \<le> int (length (lines s))" and t1: "1 \<le> t" by (rule wraps_parts)+
      with na have "t \<notin> modified_lines s" by simp
      with True le t1 have "process_target s t = Inr (wrapped s t)"
        by (simp add: process_target_eq)
      with s1 have "s1 = wrapped s t" by simp
      then have l: "lines s1 = wrapped_lines (lines s) t" by (simp add: lines_wrapped)
      show ?thesis
      proof
        assume "wraps (lines s1) t"
        with l have "wraps (wrapped_lines (lines s) t) t" by simp
        from wraps_after_wrapping[OF True _ this] show False by simp
      qed
    next
      case False
      with process_target_Inr[OF s1] have "s1 = s" by auto
      with False show ?thesis by simp
    qed
    from not_wraps_kept_run[OF rest ge now] show ?thesis by blast
  qed
  \<comment> \<open>the tail\<close>
  have tl: "(wraps (lines s') u \<longrightarrow> u \<in> set (absorbed s (t # ts)))
          \<and> (1 \<le> u \<or> - int (length (lines s)) \<le> u - 1)" if u: "u \<in> set ts" for u
  proof -
    from tail u have a: "wraps (lines s') u \<longrightarrow> u \<in> set (absorbed s1 ts)"
      and b: "1 \<le> u \<or> - int (length (lines s1)) \<le> u - 1" by blast+
    have "1 \<le> u \<or> - int (length (lines s)) \<le> u - 1"
    proof (cases "s1 = s")
      case True
      with b show ?thesis by simp
    next
      case False
      with process_target_Inr[OF s1] have "wraps (lines s) t" by blast
      then have "1 \<le> t" by (rule wraps_parts)
      moreover have "t \<le> u" using ge u by blast
      ultimately show ?thesis by simp
    qed
    with a show ?thesis by (simp add: ab del: absorbed.simps)
  qed
  from head head_idx tl show ?case by (simp del: absorbed.simps)
qed

lemma process_targets_changes_mono:
  "process_targets s ts = Inr s' \<Longrightarrow> length (changes s) \<le> length (changes s')"
proof (induction ts arbitrary: s)
  case Nil
  then show ?case by simp
next
  case (Cons t ts)
  then obtain s1 where s1: "process_target s t = Inr s1" and rest: "process_targets s1 ts = Inr s'"
    by (auto split: sum.splits)
  from process_target_Inr[OF s1] consider "s1 = s" | "s1 = wrapped s t" by blast
  then have "length (changes s) \<le> length (changes s1)"
  proof cases
    case 1
    then show ?thesis by simp
  next
    case 2
    then show ?thesis by (simp add: changes_wrapped)
  qed
  with Cons.IH[OF rest] show ?case by simp
qed

lemma unchanged_run:
  assumes "process_targets s ts = Inr s'" and "length (changes s') = length (changes s)"
    and "modified_lines s = {}"
  shows "s' = s \<and> (\<forall>t\<in>set ts. \<not> wraps (lines s) t \<and> (1 \<le> t \<or> - int (length (lines s)) \<le> t - 1))"
  using assms
proof (induction ts)
  case Nil
  then show ?case by simp
next
  case (Cons t ts)
  from Cons.prems(1) obtain s1 where s1: "process_target s t = Inr s1"
    and rest: "process_targets s1 ts = Inr s'" by (auto split: sum.splits)
  have m1: "length (changes s1) \<le> length (changes s')"
    using rest by (rule process_targets_changes_mono)
  have eq: "s1 = s"
  proof (rule ccontr)
    assume "s1 \<noteq> s"
    with process_target_Inr[OF s1] have "s1 = wrapped s t" by blast
    then have "length (changes s1) = Suc (length (changes s))" by (simp add: changes_wrapped)
    with m1 Cons.prems(2) show False by simp
  qed
  have nm: "t \<notin> modified_lines s" using Cons.prems(3) by simp
  have nw: "\<not> wraps (lines s) t"
  proof
    assume w: "wraps (lines s) t"
    then have "t \<le> int (length (lines s))" and "1 \<le> t" by (rule wraps_parts)+
    with w nm have "process_target s t = Inr (wrapped s t)" by (simp add: process_target_eq)
    with s1 eq have "wrapped s t = s" by simp
    then show False by (simp add: wrapped_neq)
  qed
  have idx: "1 \<le> t \<or> - int (length (lines s)) \<le> t - 1"
  proof (rule ccontr)
    assume a: "\<not> (1 \<le> t \<or> - int (length (lines s)) \<le> t - 1)"
    then have "\<not> int (length (lines s)) < t" by linarith
    with a nm have "process_target s t = Inl IndexError" by (simp add: process_target_eq)
    with s1 show False by simp
  qed
  from Cons.IH[OF rest[unfolded eq] Cons.prems(2,3)] eq nw idx show ?case by simp
qed

lemma rerun_iff:
  "(\<exists>s2. fix_lines L ts = Inr s2 \<and> changes s2 = [])
   \<longleftrightarrow> (\<forall>t\<in>set ts. \<not> wraps L t \<and> (1 \<le> t \<or> - int (length L) \<le> t - 1))"
proof
  assume "\<exists>s2. fix_lines L ts = Inr s2 \<and> changes s2 = []"
  then obtain s2 where r: "process_targets \<lparr>lines = L, changes = [], modified_lines = {}\<rparr> (sort ts) = Inr s2"
    and c: "changes s2 = []" unfolding fix_lines_def by blast
  from unchanged_run[OF r] c
  have "\<forall>t\<in>set (sort ts). \<not> wraps L t \<and> (1 \<le> t \<or> - int (length L) \<le> t - 1)" by simp
  then show "\<forall>t\<in>set ts. \<not> wraps L t \<and> (1 \<le> t \<or> - int (length L) \<le> t - 1)" by simp
next
  let ?s = "\<lparr>lines = L, changes = [], modified_lines = {}\<rparr>"
  assume a: "\<forall>t\<in>set ts. \<not> wraps L t \<and> (1 \<le> t \<or> - int (length L) \<le> t - 1)"
  have "\<forall>t\<in>set (sort ts). \<not> wraps (lines ?s) t \<and> - int (length (lines ?s)) \<le> t - 1"
  proof
    fix t assume "t \<in> set (sort ts)"
    then have "t \<in> set ts" by simp
    with a have "\<not> wraps L t" and "1 \<le> t \<or> - int (length L) \<le> t - 1" by blast+
    then show "\<not> wraps (lines ?s) t \<and> - int (length (lines ?s)) \<le> t - 1" by auto
  qed
  from settled_run[OF this] have "fix_lines L ts = Inr ?s" by (simp add: fix_lines_def)
  then show "\<exists>s2. fix_lines L ts = Inr s2 \<and> changes s2 = []" by simp
qed

section \<open>Reading back the lines written\<close>

lemma universal_newlines_id: "CHR 0x0D \<notin> set s \<Longrightarrow> universal_newlines s = s"
  by (induction s rule: universal_newlines.induct) auto

lemma universal_newlines_no_cr: "CHR 0x0D \<notin> set (universal_newlines s)"
  by (induction s rule: universal_newlines.induct) auto

lemma split_lines_clean:
  "CHR 0x0D \<notin> set s \<Longrightarrow> l \<in> set (split_lines s) \<Longrightarrow> clean_line l"
proof (induction s arbitrary: l rule: split_lines.induct)
  case 1
  then show ?case by simp
next
  case (2 c cs)
  from "2.prems"(1) have cr: "CHR 0x0D \<notin> set cs" and c: "c \<noteq> CHR 0x0D" by auto
  show ?case
  proof (cases "c = CHR 0x0A")
    case True
    with "2.prems"(2) have "l = [c] \<or> l \<in> set (split_lines cs)" by simp
    then show ?thesis
    proof
      assume "l = [c]"
      then show ?thesis using c by (simp add: clean_line_def)
    next
      assume "l \<in> set (split_lines cs)"
      with "2.IH"(1)[OF True cr] show ?thesis by blast
    qed
  next
    case False
    show ?thesis
    proof (cases "split_lines cs")
      case Nil
      with False "2.prems"(2) have "l = [c]" by simp
      then show ?thesis using c by (simp add: clean_line_def)
    next
      case (Cons m ms)
      with False "2.prems"(2) have "l = c # m \<or> l \<in> set ms" by simp
      then show ?thesis
      proof
        assume l: "l = c # m"
        have "clean_line m" using "2.IH"(2)[OF False cr] Cons by simp
        then show ?thesis using l c False by (auto simp: clean_line_def)
      next
        assume "l \<in> set ms"
        then have "l \<in> set (split_lines cs)" using Cons by simp
        with "2.IH"(2)[OF False cr] show ?thesis by blast
      qed
    qed
  qed
qed

lemma split_lines_terminated:
  "l \<in> set (butlast (split_lines s)) \<Longrightarrow> terminated l"
proof (induction s arbitrary: l rule: split_lines.induct)
  case 1
  then show ?case by simp
next
  case (2 c cs)
  show ?case
  proof (cases "c = CHR 0x0A")
    case True
    with "2.prems" have "l = [c] \<or> l \<in> set (butlast (split_lines cs))"
      by (auto split: if_splits)
    then show ?thesis
    proof
      assume "l = [c]"
      then show ?thesis using True by (simp add: terminated_def)
    next
      assume "l \<in> set (butlast (split_lines cs))"
      with "2.IH"(1)[OF True] show ?thesis by blast
    qed
  next
    case False
    show ?thesis
    proof (cases "split_lines cs")
      case Nil
      with False "2.prems" show ?thesis by simp
    next
      case (Cons m ms)
      with False "2.prems" have l: "l \<in> set (butlast ((c # m) # ms))" by simp
      show ?thesis
      proof (cases "ms = []")
        case True
        with l show ?thesis by simp
      next
        case ne: False
        with l have "l = c # m \<or> l \<in> set (butlast ms)" by auto
        then show ?thesis
        proof
          assume lm: "l = c # m"
          have "m \<in> set (butlast (split_lines cs))" using Cons ne by simp
          with "2.IH"(2)[OF False] have "terminated m" by blast
          then show ?thesis using lm by (auto simp: terminated_def)
        next
          assume "l \<in> set (butlast ms)"
          then have "l \<in> set (butlast (split_lines cs))" using Cons ne by simp
          with "2.IH"(2)[OF False] show ?thesis by blast
        qed
      qed
    qed
  qed
qed

lemma readlines_clean: "l \<in> set (readlines content) \<Longrightarrow> clean_line l"
  unfolding readlines_def using split_lines_clean universal_newlines_no_cr by blast

lemma readlines_terminated: "l \<in> set (butlast (readlines content)) \<Longrightarrow> terminated l"
  unfolding readlines_def by (rule split_lines_terminated)

lemma split_lines_terminated_line:
  "clean_line l \<Longrightarrow> terminated l \<Longrightarrow> split_lines (l @ r) = l # split_lines r"
proof (induction l)
  case Nil
  then show ?case by (simp add: clean_line_def)
next
  case (Cons c l)
  show ?case
  proof (cases "l = []")
    case True
    with Cons.prems(2) have "c = CHR 0x0A" by (simp add: terminated_def)
    with True show ?thesis by simp
  next
    case False
    with Cons.prems have c: "c \<noteq> CHR 0x0A" and cl: "clean_line l" and tl: "terminated l"
      by (auto simp: clean_line_def terminated_def)
    from Cons.IH[OF cl tl] c show ?thesis by simp
  qed
qed

lemma split_lines_open_line:
  "l \<noteq> [] \<Longrightarrow> CHR 0x0A \<notin> set l \<Longrightarrow>
     split_lines (l @ r) = (case split_lines r of [] \<Rightarrow> [l] | m # ms \<Rightarrow> (l @ m) # ms)"
proof (induction l)
  case Nil
  then show ?case by simp
next
  case (Cons c l)
  then have c: "c \<noteq> CHR 0x0A" and nl: "CHR 0x0A \<notin> set l" by auto
  show ?case
  proof (cases "l = []")
    case True
    with c show ?thesis by (simp split: list.splits)
  next
    case False
    from Cons.IH[OF False nl] c show ?thesis by (simp split: list.splits)
  qed
qed

lemma open_line: "clean_line l \<Longrightarrow> \<not> terminated l \<Longrightarrow> l \<noteq> [] \<and> CHR 0x0A \<notin> set l"
proof -
  assume c: "clean_line l" and t: "\<not> terminated l"
  then have ne: "l \<noteq> []" and b: "CHR 0x0A \<notin> set (butlast l)" and la: "last l \<noteq> CHR 0x0A"
    by (simp_all add: clean_line_def terminated_def)
  have "l = butlast l @ [last l]" using ne by simp
  then have "set l = set (butlast l @ [last l])" by (rule arg_cong)
  then have "set l = set (butlast l) \<union> {last l}" by simp
  with b la ne show ?thesis by auto
qed

lemma split_lines_concat_terminated:
  "\<forall>l\<in>set pre. clean_line l \<and> terminated l \<Longrightarrow>
     split_lines (concat pre @ r) = pre @ split_lines r"
proof (induction pre)
  case Nil
  show ?case by simp
next
  case (Cons a pre)
  then have a: "clean_line a" "terminated a" and rest: "\<forall>l\<in>set pre. clean_line l \<and> terminated l"
    by simp_all
  have "split_lines (concat (a # pre) @ r) = split_lines (a @ (concat pre @ r))" by simp
  also have "\<dots> = a # split_lines (concat pre @ r)" using a by (rule split_lines_terminated_line)
  also have "\<dots> = a # pre @ split_lines r" using Cons.IH[OF rest] by simp
  finally show ?case by simp
qed

lemma split_lines_single: "clean_line x \<Longrightarrow> split_lines x = [x]"
proof (cases "terminated x")
  case True
  assume "clean_line x"
  from split_lines_terminated_line[OF this True, of "[]"] show ?thesis by simp
next
  case False
  assume "clean_line x"
  from open_line[OF this False] have "x \<noteq> []" "CHR 0x0A \<notin> set x" by simp_all
  from split_lines_open_line[OF this, of "[]"] show ?thesis by simp
qed

lemma concat_no_cr: "\<forall>l\<in>set L. clean_line l \<Longrightarrow> CHR 0x0D \<notin> set (concat L)"
  by (auto simp: clean_line_def)

lemma readlines_concat:
  assumes "\<forall>l\<in>set L. clean_line l"
  shows "readlines (concat L) = split_lines (concat L)"
proof -
  have "CHR 0x0D \<notin> set (concat L)" using assms by (rule concat_no_cr)
  then have "universal_newlines (concat L) = concat L" by (rule universal_newlines_id)
  then show ?thesis by (simp only: readlines_def)
qed

text \<open>all lines but the last end in a newline: the lines come back as they are\<close>

lemma reread_same:
  assumes "\<forall>l\<in>set L. clean_line l" and "\<forall>l\<in>set (butlast L). terminated l"
  shows "readlines (writelines L) = L"
proof (cases "L = []")
  case True
  then show ?thesis by (simp add: readlines_def writelines_def)
next
  case False
  then have L: "L = butlast L @ [last L]" by simp
  have pre: "\<forall>l\<in>set (butlast L). clean_line l \<and> terminated l"
    using assms by (auto dest: in_set_butlastD)
  have x: "clean_line (last L)" using assms(1) False by simp
  have "concat L = concat (butlast L) @ last L" by (subst L) simp
  then have "split_lines (concat L) = butlast L @ split_lines (last L)"
    using split_lines_concat_terminated[OF pre] by simp
  also have "\<dots> = butlast L @ [last L]" using x by (simp add: split_lines_single)
  finally have "split_lines (concat L) = L" using L by simp
  then show ?thesis using readlines_concat[OF assms(1)] by (simp only: writelines_def)
qed

text \<open>a line without a newline before the last: it comes back joined to the next\<close>

lemma reread_joined:
  assumes "\<forall>l\<in>set pre. clean_line l \<and> terminated l" and "clean_line x" and "\<not> terminated x"
    and "\<forall>l\<in>set (m # cl). clean_line l \<and> terminated l"
  shows "readlines (writelines (pre @ x # m # cl)) = pre @ (x @ m) # cl"
proof -
  have all: "\<forall>l\<in>set (pre @ x # m # cl). clean_line l" using assms by auto
  from open_line[OF assms(2,3)] have ox: "x \<noteq> []" "CHR 0x0A \<notin> set x" by simp_all
  have tail: "split_lines (concat (m # cl)) = m # cl"
    using split_lines_concat_terminated[OF assms(4), of "[]"] by simp
  have "concat (pre @ x # m # cl) = concat pre @ (x @ concat (m # cl))" by simp
  then have "split_lines (concat (pre @ x # m # cl)) = pre @ split_lines (x @ concat (m # cl))"
    using split_lines_concat_terminated[OF assms(1)] by simp
  also have "split_lines (x @ concat (m # cl)) = (x @ m) # cl"
    using split_lines_open_line[OF ox, of "concat (m # cl)"] tail by simp
  finally have "split_lines (concat (pre @ x # m # cl)) = pre @ (x @ m) # cl" .
  then show ?thesis using readlines_concat[OF all] by (simp only: writelines_def)
qed

section \<open>The lines a wrapped block adds\<close>

lemma rstrip_last: "rstrip x \<noteq> [] \<Longrightarrow> \<not> is_space (last (rstrip x))"
proof -
  assume ne: "rstrip x \<noteq> []"
  then have d: "dropWhile is_space (rev x) \<noteq> []" by (simp add: rstrip_def)
  have "last (rstrip x) = hd (dropWhile is_space (rev x))"
    using d by (simp add: rstrip_def last_rev)
  moreover have "\<not> is_space (hd (dropWhile is_space (rev x)))" using d by (rule hd_dropWhile)
  ultimately show ?thesis by simp
qed

lemma space_newline: "is_space CHR 0x0A"
  by (simp add: is_space_def)

lemma set_rstrip: "set (rstrip x) \<subseteq> set x"
proof -
  obtain w where "x = rstrip x @ w" using rstrip_split by blast
  then have "set x = set (rstrip x @ w)" by (rule arg_cong)
  then show ?thesis by auto
qed

lemma rstrip_no_newline:
  assumes "CHR 0x0A \<notin> set (butlast x)"
  shows "CHR 0x0A \<notin> set (rstrip x)"
proof
  assume a: "CHR 0x0A \<in> set (rstrip x)"
  then have ne: "rstrip x \<noteq> []" by auto
  obtain w where x: "x = rstrip x @ w" using rstrip_split by blast
  show False
  proof (cases "w = []")
    case True
    with x have full: "rstrip x = x" by simp
    with ne have xne: "x \<noteq> []" by simp
    then have "x = butlast x @ [last x]" by simp
    then have "set x = set (butlast x @ [last x])" by (rule arg_cong)
    with a full assms have "last x = CHR 0x0A" by auto
    moreover have "\<not> is_space (last x)" using rstrip_last[OF ne] full by simp
    ultimately show False by (simp add: space_newline)
  next
    case False
    then have "butlast x = rstrip x @ butlast w" by (subst x) (simp add: butlast_append)
    with a assms show False by auto
  qed
qed

lemma clean_open_case: "clean_line x \<Longrightarrow> clean_line (open_case x) \<and> terminated (open_case x)"
proof -
  assume c: "clean_line x"
  then have cr: "CHR 0x0D \<notin> set x" and nl: "CHR 0x0A \<notin> set (butlast x)"
    by (simp_all add: clean_line_def)
  have cr': "CHR 0x0D \<notin> set (rstrip x)" using cr set_rstrip by blast
  have nl': "CHR 0x0A \<notin> set (rstrip x)" using nl by (rule rstrip_no_newline)
  have b: "butlast (open_case x) = rstrip x @ '' {''"
    by (simp add: open_case_eq butlast_append)
  show ?thesis using cr' nl' by (simp add: clean_line_def terminated_def b) (simp add: open_case_eq)
qed

lemma clean_closing_line: "clean_line (closing_line n) \<and> terminated (closing_line n)"
  by (simp add: clean_line_def terminated_def closing_line_def butlast_append)

lemma closing_line_no_word: "\<forall>c\<in>set (closing_line n). \<not> is_word c"
  by (auto simp: closing_line_def is_word_def)

lemma closing_line_no_brace: "\<not> has_brace (closing_line n)"
  by (auto simp: closing_line_def has_brace_def)

lemma closing_line_no_label: "\<not> is_case_label (closing_line n)"
proof -
  have "lstrip (closing_line n) = lstrip ''}\<newline>''"
    unfolding closing_line_def by (simp add: lstrip_append_spaces space_space)
  also have "\<dots> = ''}\<newline>''" by (rule lstrip_nonspace) (simp_all add: is_space_def)
  finally show ?thesis by (simp add: is_case_label_def case_prefix_def literal_at_def)
qed

lemma has_lexical_decl_tail:
  assumes "\<forall>c\<in>set t. \<not> is_word c"
  shows "has_lexical_decl (y @ t) = has_lexical_decl y"
proof -
  have tt: "t = [] \<or> \<not> is_word (hd t)" using assms by (cases t) simp_all
  have te: "([]::string) = [] \<or> \<not> is_word (hd [])" by simp
  have fit: "i + length k \<le> length y"
    if k: "k \<in> {''const'', ''let'', ''var''}" and lit: "literal_at (y @ t) i k" for i k
  proof (rule ccontr)
    from keyword_last_word[OF k] have kne: "k \<noteq> []" and kl: "is_word (last k)" by simp_all
    assume "\<not> i + length k \<le> length y"
    then have over: "length y \<le> i + (length k - 1)" using kne by (cases k) simp_all
    have j: "length k - 1 < length k" using kne by simp
    from literal_at_nth[OF lit j]
    have l: "i + (length k - 1) < length (y @ t)"
      and c: "(y @ t) ! (i + (length k - 1)) = k ! (length k - 1)" by simp_all
    have "k ! (length k - 1) = last k" using kne by (simp add: last_conv_nth)
    with c kl have word: "is_word ((y @ t) ! (i + (length k - 1)))" by simp
    have "(y @ t) ! (i + (length k - 1)) = t ! (i + (length k - 1) - length y)"
      using over by (simp add: nth_append)
    moreover have "i + (length k - 1) - length y < length t" using l over by simp
    then have "t ! (i + (length k - 1) - length y) \<in> set t" by (rule nth_mem)
    ultimately have "(y @ t) ! (i + (length k - 1)) \<in> set t" by simp
    with assms word show False by blast
  qed
  have same: "decl_at (y @ t) i = decl_at y i" for i
  proof -
    have one: "(literal_at (y @ t) i k \<and> word_boundary (y @ t) i \<and> word_boundary (y @ t) (i + length k))
        = (literal_at y i k \<and> word_boundary y i \<and> word_boundary y (i + length k))"
      if k: "k \<in> {''const'', ''let'', ''var''}" for k
    proof (cases "i + length k \<le> length y")
      case True
      then have ile: "i \<le> length y" by simp
      have "literal_at (y @ t) i k = literal_at y i k" using True by (rule literal_at_prefix)
      moreover have "word_boundary (y @ t) i = word_boundary (y @ []) i"
        using ile tt te by (rule word_boundary_prefix)
      moreover have "word_boundary (y @ t) (i + length k) = word_boundary (y @ []) (i + length k)"
        using True tt te by (rule word_boundary_prefix)
      ultimately show ?thesis by simp
    next
      case False
      then have "\<not> literal_at (y @ t) i k" using fit[OF k] by blast
      moreover have "\<not> literal_at y i k"
      proof
        assume "literal_at y i k"
        then have "literal_at (y @ []) i k" by simp
        from keyword_last_word[OF k] have kne: "k \<noteq> []" by simp
        then have j: "length k - 1 < length k" by simp
        from literal_at_nth[OF \<open>literal_at y i k\<close> j] have "i + (length k - 1) < length y" by simp
        with kne False show False by (cases k) simp_all
      qed
      ultimately show ?thesis by simp
    qed
    show ?thesis unfolding decl_at_iff using one by blast
  qed
  have "(\<exists>i\<le>length (y @ t). decl_at (y @ t) i) = (\<exists>i\<le>length y. decl_at y i)"
  proof
    assume "\<exists>i\<le>length (y @ t). decl_at (y @ t) i"
    then obtain i where d: "decl_at (y @ t) i" by blast
    then obtain k where k: "k \<in> {''const'', ''let'', ''var''}" and "literal_at (y @ t) i k"
      unfolding decl_at_iff by blast
    from fit[OF this] have "i \<le> length y" by simp
    with d same show "\<exists>i\<le>length y. decl_at y i" by blast
  next
    assume "\<exists>i\<le>length y. decl_at y i"
    then obtain i where "i \<le> length y" and "decl_at y i" by blast
    with same have "i \<le> length (y @ t)" and "decl_at (y @ t) i" by simp_all
    then show "\<exists>i\<le>length (y @ t). decl_at (y @ t) i" by blast
  qed
  then show ?thesis unfolding has_lexical_decl_iff .
qed

lemma closing_line_no_decl: "\<not> has_lexical_decl (closing_line n)"
proof -
  have "has_lexical_decl ([] @ closing_line n) = has_lexical_decl []"
    using closing_line_no_word by (rule has_lexical_decl_tail)
  moreover have "\<not> has_lexical_decl []" by code_simp
  ultimately show ?thesis by simp
qed

section \<open>The lines of the file during a run\<close>

lemma tidy_readlines: "tidy (readlines content)"
proof -
  let ?L = "readlines content"
  have "L ! j \<in> range closing_line"
    if "i < j" "j < length L" "\<not> terminated (L ! i)" "L = ?L" for i j L
  proof -
    from that(1,2) have "i < length (butlast L)" by simp
    then have "butlast L ! i \<in> set (butlast L)" by (rule nth_mem)
    moreover have "butlast L ! i = L ! i" using \<open>i < length (butlast L)\<close> by (rule nth_butlast)
    ultimately have "L ! i \<in> set (butlast L)" by simp
    with that(4) have "terminated (L ! i)" using readlines_terminated by blast
    with that(3) show ?thesis by contradiction
  qed
  then show ?thesis unfolding tidy_def using readlines_clean by blast
qed

lemma set_wrapped_lines:
  assumes "wraps L t"
  shows "set (wrapped_lines L t)
      \<subseteq> set L \<union> {open_case (L ! anchor L t), closing_line (indent_of (L ! anchor L t))}"
proof
  fix l assume "l \<in> set (wrapped_lines L t)"
  then obtain j where j: "j < length (wrapped_lines L t)" and l: "l = wrapped_lines L t ! j"
    by (auto simp: in_set_conv_nth)
  from j have jl: "j < Suc (length L)" by (simp add: length_wrapped_lines)
  have e: "block_end L t \<le> length L" using assms by (rule wraps_block_end_le)
  have a: "int (anchor L t) + 2 \<le> t" using assms by (rule wraps_anchor_less)
  have b: "nat t \<le> block_end L t" by (rule wraps_block_end_ge)
  consider "j = anchor L t" | "j \<noteq> anchor L t" "j < block_end L t"
    | "j \<noteq> anchor L t" "j = block_end L t" | "j \<noteq> anchor L t" "block_end L t < j"
    by linarith
  then show "l \<in> set L \<union> {open_case (L ! anchor L t), closing_line (indent_of (L ! anchor L t))}"
  proof cases
    case 1
    then show ?thesis using l nth_wrapped_lines[OF assms, of j] by simp
  next
    case 2
    then have "l = L ! j" using l nth_wrapped_lines[OF assms, of j] by simp
    moreover have "j < length L" using 2 e by simp
    ultimately show ?thesis by simp
  next
    case 3
    then show ?thesis using l nth_wrapped_lines[OF assms, of j] by simp
  next
    case 4
    then have "l = L ! (j - 1)" using l nth_wrapped_lines[OF assms, of j] by simp
    moreover have "j - 1 < length L" using 4 jl by simp
    ultimately show ?thesis by simp
  qed
qed

lemma wraps_target_line:
  assumes "tidy L" and "wraps L t" and "i < nat (t - 1)"
  shows "terminated (L ! i)"
proof (rule ccontr)
  assume nt: "\<not> terminated (L ! i)"
  have t1: "1 \<le> t" and tl: "t \<le> int (length L)" using assms(2) by (rule wraps_parts)+
  then have "nat (t - 1) < length L" by linarith
  with assms(1,3) nt have "L ! nat (t - 1) \<in> range closing_line" unfolding tidy_def by blast
  then have "\<not> has_lexical_decl (L ! nat (t - 1))" using closing_line_no_decl by auto
  with wraps_parts(3)[OF assms(2)] show False by contradiction
qed

lemma tidy_wrapped:
  assumes "tidy L" and "wraps L t"
  shows "tidy (wrapped_lines L t)"
proof -
  let ?W = "wrapped_lines L t" and ?a = "anchor L t" and ?e = "block_end L t"
  have a: "int ?a + 2 \<le> t" using assms(2) by (rule wraps_anchor_less)
  have b: "nat t \<le> ?e" by (rule wraps_block_end_ge)
  have e: "?e \<le> length L" using assms(2) by (rule wraps_block_end_le)
  from a b have ae: "?a < ?e" by linarith
  with e have al: "?a < length L" by simp
  have cl: "\<forall>l\<in>set L. clean_line l" using assms(1) by (simp add: tidy_def)
  have ca: "clean_line (L ! ?a)" using cl al by simp
  have nth: "?W ! j =
           (if j = ?a then open_case (L ! ?a)
            else if j < ?e then L ! j
            else if j = ?e then closing_line (indent_of (L ! ?a))
            else L ! (j - 1))" for j
    by (rule nth_wrapped_lines[OF assms(2)])
  have clean: "\<forall>l\<in>set ?W. clean_line l"
  proof
    fix l assume "l \<in> set ?W"
    with set_wrapped_lines[OF assms(2)]
    have "l \<in> set L \<or> l = open_case (L ! ?a) \<or> l = closing_line (indent_of (L ! ?a))" by blast
    then show "clean_line l" using cl clean_open_case[OF ca] clean_closing_line by auto
  qed
  have after: "?W ! j \<in> range closing_line"
    if ij: "i < j" and jl: "j < length ?W" and nt: "\<not> terminated (?W ! i)" for i j
  proof -
    have jl': "j < Suc (length L)" using jl by (simp add: length_wrapped_lines)
    have ia: "i \<noteq> ?a" using nt clean_open_case[OF ca] by (auto simp: nth)
    have ie: "i \<noteq> ?e" using nt clean_closing_line ae by (auto simp: nth)
    define i' where "i' = (if i < ?e then i else i - 1)"
    have wi: "?W ! i = L ! i'" using ia ie by (simp add: nth i'_def)
    with nt have nt': "\<not> terminated (L ! i')" by simp
    have i'le: "i' \<le> i" by (simp add: i'_def)
    \<comment> \<open>the line without a newline is not above the target, so not above the case label\<close>
    have "\<not> i' < nat (t - 1)" using wraps_target_line[OF assms] nt' by blast
    then have ti: "nat (t - 1) \<le> i'" by simp
    with a have ai: "?a < i'" by linarith
    show ?thesis
    proof (cases "j = ?e")
      case True
      then show ?thesis using ae by (simp add: nth)
    next
      case False
      have ja: "j \<noteq> ?a" using ai i'le ij by simp
      define j' where "j' = (if j < ?e then j else j - 1)"
      have wj: "?W ! j = L ! j'" using ja False by (simp add: nth j'_def)
      have "i' < j'" using ij ie False by (auto simp: i'_def j'_def)
      moreover have "j' < length L" using jl' False e by (auto simp: j'_def)
      ultimately have "L ! j' \<in> range closing_line"
        using assms(1) nt' unfolding tidy_def by blast
      with wj show ?thesis by simp
    qed
  qed
  show ?thesis unfolding tidy_def using clean after by blast
qed

lemma tidy_run: "process_targets s ts = Inr s' \<Longrightarrow> tidy (lines s) \<Longrightarrow> tidy (lines s')"
proof (induction ts arbitrary: s)
  case Nil
  then show ?case by simp
next
  case (Cons t ts)
  from Cons.prems(1) obtain s1 where s1: "process_target s t = Inr s1"
    and rest: "process_targets s1 ts = Inr s'" by (auto split: sum.splits)
  from process_target_Inr[OF s1]
  consider "s1 = s" | "wraps (lines s) t" "s1 = wrapped s t" by blast
  then have "tidy (lines s1)"
  proof cases
    case 1
    with Cons.prems(2) show ?thesis by simp
  next
    case 2
    have "lines s1 = wrapped_lines (lines s) t" unfolding 2(2) by (rule lines_wrapped)
    with tidy_wrapped[OF Cons.prems(2) 2(1)] show ?thesis by simp
  qed
  from Cons.IH[OF rest this] show ?case .
qed

section \<open>The targets that wrap in the file written\<close>

lemma tidy_cases:
  assumes "tidy L"
  shows "readlines (writelines L) = L
       \<or> (\<exists>pre x m cl. L = pre @ x # m # cl
            \<and> readlines (writelines L) = pre @ (x @ m) # cl
            \<and> (\<forall>l\<in>set (m # cl). l \<in> range closing_line))"
proof (cases "\<exists>i. Suc i < length L \<and> \<not> terminated (L ! i)")
  case False
  have cl: "\<forall>l\<in>set L. clean_line l" using assms by (simp add: tidy_def)
  have "\<forall>l\<in>set (butlast L). terminated l"
  proof
    fix l assume "l \<in> set (butlast L)"
    then obtain i where i: "i < length (butlast L)" and l: "l = butlast L ! i"
      by (auto simp: in_set_conv_nth)
    from i have "Suc i < length L" by simp
    with False have "terminated (L ! i)" by blast
    moreover have "butlast L ! i = L ! i" using i by (rule nth_butlast)
    ultimately show "terminated l" using l by simp
  qed
  with cl have "readlines (writelines L) = L" by (rule reread_same)
  then show ?thesis by simp
next
  case True
  then obtain u where u: "Suc u < length L" and nt: "\<not> terminated (L ! u)"
    and least: "\<forall>k<u. \<not> (Suc k < length L \<and> \<not> terminated (L ! k))"
    using exists_least_iff[of "\<lambda>i. Suc i < length L \<and> \<not> terminated (L ! i)"] by blast
  have cl: "\<forall>l\<in>set L. clean_line l" using assms by (simp add: tidy_def)
  define pre where "pre = take u L"
  define x where "x = L ! u"
  define m where "m = L ! Suc u"
  define cl' where "cl' = drop (Suc (Suc u)) L"
  have "L = take u L @ L ! u # drop (Suc u) L" using u by (simp add: id_take_nth_drop)
  also have "drop (Suc u) L = L ! Suc u # drop (Suc (Suc u)) L"
    using u by (simp add: Cons_nth_drop_Suc)
  finally have L: "L = pre @ x # m # cl'" by (simp add: pre_def x_def m_def cl'_def)
  have p: "\<forall>l\<in>set pre. clean_line l \<and> terminated l"
  proof
    fix l assume "l \<in> set pre"
    then obtain k where k: "k < length pre" and l: "l = pre ! k" by (auto simp: in_set_conv_nth)
    from k u have ku: "k < u" by (simp add: pre_def)
    then have lk: "l = L ! k" using l by (simp add: pre_def)
    from ku u have "Suc k < length L" by simp
    with least ku have "terminated (L ! k)" by blast
    moreover have "L ! k \<in> set L" using ku u by simp
    ultimately show "clean_line l \<and> terminated l" using cl lk by simp
  qed
  have cx: "clean_line x" using cl u by (simp add: x_def)
  have ntx: "\<not> terminated x" using nt by (simp add: x_def)
  have closing: "\<forall>l\<in>set (m # cl'). l \<in> range closing_line"
  proof
    fix l assume "l \<in> set (m # cl')"
    then have "l \<in> set (drop (Suc u) L)"
      using u by (simp add: m_def cl'_def Cons_nth_drop_Suc)
    then obtain j where j: "j < length (drop (Suc u) L)" and l: "l = drop (Suc u) L ! j"
      by (auto simp: in_set_conv_nth)
    from j have jl: "Suc u + j < length L" by simp
    then have "l = L ! (Suc u + j)" using l by simp
    moreover have "u < Suc u + j" by simp
    ultimately show "l \<in> range closing_line"
      using assms jl nt unfolding tidy_def by blast
  qed
  then have ct: "\<forall>l\<in>set (m # cl'). clean_line l \<and> terminated l"
    using clean_closing_line by auto
  have "readlines (writelines (pre @ x # m # cl')) = pre @ (x @ m) # cl'"
    using p cx ntx ct by (rule reread_joined)
  with L closing show ?thesis by blast
qed

lemma closing_no_decl: "l \<in> range closing_line \<Longrightarrow> \<not> has_lexical_decl l"
  using closing_line_no_decl by auto

lemma wraps_joined:
  assumes "\<forall>l\<in>set (m # cl). l \<in> range closing_line"
  shows "wraps (pre @ (x @ m) # cl) t = wraps (pre @ x # m # cl) t"
proof -
  let ?L = "pre @ x # m # cl" and ?L' = "pre @ (x @ m) # cl" and ?u = "length pre"
  have m: "m \<in> range closing_line" using assms by simp
  then obtain n where mn: "m = closing_line n" by blast
  have below: "j < ?u \<Longrightarrow> ?L' ! j = ?L ! j" for j by (simp add: nth_append)
  have decl_u: "has_lexical_decl (?L' ! ?u) = has_lexical_decl (?L ! ?u)"
    using has_lexical_decl_tail[OF closing_line_no_word, of x n] by (simp add: mn)
  have brace_u: "has_brace (?L' ! ?u) = has_brace (?L ! ?u)"
    using closing_line_no_brace[of n] by (simp add: mn has_brace_def)
  have above: "\<not> has_lexical_decl (?L ! j)" if "?u < j" "j < length ?L" for j
  proof -
    from that have "?L ! j = (m # cl) ! (j - Suc ?u)" by (simp add: nth_append nth_Cons')
    moreover have "j - Suc ?u < length (m # cl)" using that by simp
    ultimately have "?L ! j \<in> set (m # cl)" by (metis nth_mem)
    with assms show ?thesis using closing_no_decl by blast
  qed
  have above': "\<not> has_lexical_decl (?L' ! j)" if "?u < j" "j < length ?L'" for j
  proof -
    from that have "?L' ! j = cl ! (j - Suc ?u)" by (simp add: nth_append nth_Cons')
    moreover have "j - Suc ?u < length cl" using that by simp
    ultimately have "?L' ! j \<in> set cl" by (metis nth_mem)
    with assms show ?thesis using closing_no_decl by auto
  qed
  show ?thesis
  proof (cases "1 \<le> t \<and> nat (t - 1) \<le> ?u")
    case False
    have "\<not> wraps ?L t"
    proof
      assume w: "wraps ?L t"
      from wraps_parts(1,2)[OF w] False have "?u < nat (t - 1)" "nat (t - 1) < length ?L"
        by linarith+
      from above[OF this] wraps_parts(3)[OF w] show False by contradiction
    qed
    moreover have "\<not> wraps ?L' t"
    proof
      assume w: "wraps ?L' t"
      from wraps_parts(1,2)[OF w] False have "?u < nat (t - 1)" "nat (t - 1) < length ?L'"
        by linarith+
      from above'[OF this] wraps_parts(3)[OF w] show False by contradiction
    qed
    ultimately show ?thesis by simp
  next
    case True
    then have t1: "1 \<le> t" and tu: "nat (t - 1) \<le> ?u" by simp_all
    have tl: "t \<le> int (length ?L)" and tl': "t \<le> int (length ?L')" using tu t1 by simp_all
    have decl: "has_lexical_decl (?L' ! nat (t - 1)) = has_lexical_decl (?L ! nat (t - 1))"
    proof (cases "nat (t - 1) = ?u")
      case True
      with decl_u show ?thesis by simp
    next
      case False
      with tu have "nat (t - 1) < ?u" by simp
      from below[OF this] show ?thesis by simp
    qed
    have fc: "find_case ?L' (t - 2) = find_case ?L (t - 2)"
    proof (rule find_case_cong)
      fix j :: int assume "0 \<le> j" "j \<le> t - 2"
      with tu have "nat j < ?u" by linarith
      from below[OF this] show "is_case_label (?L' ! nat j) = is_case_label (?L ! nat j)"
        by simp
    qed
    then have an: "anchor ?L' t = anchor ?L t" by (simp only: anchor_def)
    show ?thesis
    proof (cases "0 \<le> find_case ?L (t - 2)")
      case False
      then show ?thesis by (simp add: wraps_def fc)
    next
      case f0: True
      have "find_case ?L (t - 2) \<le> t - 2" by (rule find_case_le)
      with f0 have at: "int (anchor ?L t) + 2 \<le> t" unfolding anchor_def by linarith
      with tu have au: "anchor ?L t < ?u" by linarith
      have b0: "has_brace (?L' ! anchor ?L t) = has_brace (?L ! anchor ?L t)"
        using below[OF au] by simp
      have a1: "anchor ?L t + 1 \<le> ?u" using au by simp
      have in1: "anchor ?L t + 1 < length ?L" and in1': "anchor ?L t + 1 < length ?L'"
        using a1 by simp_all
      have b1: "has_brace (?L' ! (anchor ?L t + 1)) = has_brace (?L ! (anchor ?L t + 1))"
      proof (cases "anchor ?L t + 1 = ?u")
        case True
        with brace_u show ?thesis by simp
      next
        case False
        with a1 have "anchor ?L t + 1 < ?u" by simp
        from below[OF this] show ?thesis by simp
      qed
      have "wraps ?L' t = (has_lexical_decl (?L' ! nat (t - 1))
          \<and> \<not> has_brace (?L' ! anchor ?L t) \<and> \<not> has_brace (?L' ! (anchor ?L t + 1)))"
        unfolding wraps_def an fc using t1 tl' f0 in1' by blast
      moreover have "wraps ?L t = (has_lexical_decl (?L ! nat (t - 1))
          \<and> \<not> has_brace (?L ! anchor ?L t) \<and> \<not> has_brace (?L ! (anchor ?L t + 1)))"
        unfolding wraps_def using t1 tl f0 in1 by blast
      ultimately show ?thesis using decl b0 b1 by simp
    qed
  qed
qed

lemma wraps_reread:
  assumes "tidy L"
  shows "wraps (readlines (writelines L)) t = wraps L t
       \<and> length L \<le> Suc (length (readlines (writelines L)))"
proof -
  from tidy_cases[OF assms]
  consider "readlines (writelines L) = L"
    | pre x m cl where "L = pre @ x # m # cl" "readlines (writelines L) = pre @ (x @ m) # cl"
        "\<forall>l\<in>set (m # cl). l \<in> range closing_line"
    by blast
  then show ?thesis
  proof cases
    case 1
    then show ?thesis by simp
  next
    case 2
    have "wraps (pre @ (x @ m) # cl) t = wraps (pre @ x # m # cl) t"
      using 2(3) by (rule wraps_joined)
    then show ?thesis unfolding 2(2) by (simp add: 2(1))
  qed
qed

section \<open>The second call on the file\<close>

lemma file_rerun:
  assumes "files w p = Some content"
  shows "(fix_case_block w p ts = (w, Inr 0))
       = (\<exists>s. fix_lines (readlines content) ts = Inr s \<and> changes s = [])"
proof (cases "fix_lines (readlines content) ts")
  case (Inl e)
  with assms show ?thesis by (simp add: fix_case_block_def)
next
  case (Inr s)
  show ?thesis
  proof (cases "changes s = []")
    case True
    with assms Inr show ?thesis by (simp add: fix_case_block_def)
  next
    case False
    then have "length (changes s) \<noteq> 0" by simp
    with assms Inr False show ?thesis by (simp add: fix_case_block_def)
  qed
qed

lemma first_run_state:
  assumes "files w p = Some content" and "fix_case_block w p ts = (w1, Inr n)"
  shows "\<exists>s. fix_lines (readlines content) ts = Inr s
      \<and> (changes s = [] \<longrightarrow> w1 = w)
      \<and> (changes s \<noteq> [] \<longrightarrow> files w1 p = Some (writelines (lines s)))"
proof (cases "fix_lines (readlines content) ts")
  case (Inl e)
  with assms show ?thesis by (simp add: fix_case_block_def)
next
  case (Inr s)
  with assms show ?thesis
    by (cases "changes s = []") (auto simp: fix_case_block_def emit_def write_file_def)
qed

section \<open>The properties of the specification\<close>

text \<open>
  Claim C1, as stated: a second run on the output of the first, with the same targets,
  changes nothing and returns 0. It fails when a target of the first run is skipped as
  already modified and has a case label of its own inside the wrapped range: with a
  label nested deeper than the first and the targets 2 and 4, the first run wraps the
  outer block only and the second run wraps the inner one.
\<close>

theorem second_run_wraps_again:
  "fix_lines
     [''case 1:\<newline>'',
      ''  let a;\<newline>'',
      ''  case 2:\<newline>'',
      ''  let b;\<newline>''] [2, 4]
   = Inr \<lparr>lines =
            [''case 1: {\<newline>'',
             ''  let a;\<newline>'',
             ''  case 2:\<newline>'',
             ''  let b;\<newline>'',
             ''    }\<newline>''],
          changes = [\<lparr>case_line = 1, declaration_line = 2, end_line = 5\<rparr>],
          modified_lines = {1, 2, 3, 4, 5, 6}\<rparr>
   \<and> fix_lines
     [''case 1: {\<newline>'',
      ''  let a;\<newline>'',
      ''  case 2:\<newline>'',
      ''  let b;\<newline>'',
      ''    }\<newline>''] [2, 4]
   = Inr \<lparr>lines =
            [''case 1: {\<newline>'',
             ''  let a;\<newline>'',
             ''  case 2: {\<newline>'',
             ''  let b;\<newline>'',
             ''    }\<newline>'',
             ''      }\<newline>''],
          changes = [\<lparr>case_line = 3, declaration_line = 4, end_line = 6\<rparr>],
          modified_lines = {3, 4, 5, 6, 7}\<rparr>"
  by code_simp

text \<open>
  Claim C1, amended: after a call of \<open>fix_case_block\<close> that returns, a second call on
  the file as the first left it, with the same targets, changes nothing and returns 0
  exactly when no target that the first run skipped as already modified still qualifies
  for wrapping in that file (a declaration keyword on its line, a case label above it,
  and no opening brace on that label or on the line after it). A target that the first
  run did not skip in that way never qualifies again. The file is read back as written,
  also when its last line had no newline and the closing brace was joined to it.
\<close>

theorem second_run_no_op:
  assumes "files w p = Some content" and "fix_case_block w p ts = (w1, Inr n)"
  shows "\<exists>content1. files w1 p = Some content1
     \<and> (\<forall>t\<in>set ts. wraps (readlines content1) t \<longrightarrow>
          t \<in> set (absorbed \<lparr>lines = readlines content, changes = [], modified_lines = {}\<rparr>
                     (sort ts)))
     \<and> (fix_case_block w1 p ts = (w1, Inr 0) \<longleftrightarrow>
          (\<forall>t\<in>set (absorbed \<lparr>lines = readlines content, changes = [], modified_lines = {}\<rparr>
                      (sort ts)).
              \<not> wraps (readlines content1) t))"
proof -
  let ?ls = "readlines content"
  let ?init = "\<lparr>lines = ?ls, changes = [], modified_lines = {}\<rparr>"
  let ?ab = "set (absorbed ?init (sort ts))"
  from first_run_state[OF assms] obtain s where fl: "fix_lines ?ls ts = Inr s"
    and same: "changes s = [] \<longrightarrow> w1 = w"
    and written: "changes s \<noteq> [] \<longrightarrow> files w1 p = Some (writelines (lines s))" by blast
  have r: "process_targets ?init (sort ts) = Inr s" using fl by (simp only: fix_lines_def)
  have "\<forall>m\<in>modified_lines ?init. 1 \<le> m" by simp
  from run_settles[OF sorted_sort r this]
  have settle: "\<forall>t\<in>set ts. (wraps (lines s) t \<longrightarrow> t \<in> ?ab)
                    \<and> (1 \<le> t \<or> - int (length ?ls) \<le> t - 1)" by simp
  have sub: "?ab \<subseteq> set ts" using set_absorbed[of ?init "sort ts"] by simp
  have "tidy (lines ?init)" using tidy_readlines by simp
  from tidy_run[OF r this] have tidy: "tidy (lines s)" .
  \<comment> \<open>the file after the first run, and the lines read from it\<close>
  obtain content1 where c1: "files w1 p = Some content1"
    and wr: "\<And>t. wraps (readlines content1) t = wraps (lines s) t"
    and len: "length ?ls \<le> length (readlines content1)"
  proof (cases "changes s = []")
    case True
    with same have w: "w1 = w" by simp
    from unchanged_run[OF r] True have "s = ?init" by simp
    then have "lines s = ?ls" by simp
    with assms(1) w that[of content] show ?thesis by simp
  next
    case False
    with written have f: "files w1 p = Some (writelines (lines s))" by simp
    from wraps_reread[OF tidy]
    have a: "\<And>t. wraps (readlines (writelines (lines s))) t = wraps (lines s) t"
      and b: "length (lines s) \<le> Suc (length (readlines (writelines (lines s))))" by simp_all
    have "length (lines s) + length (changes ?init) = length (lines ?init) + length (changes s)"
      using r by (rule process_targets_length)
    moreover have "0 < length (changes s)" using False by simp
    ultimately have "length ?ls < length (lines s)" by simp
    with b have "length ?ls \<le> length (readlines (writelines (lines s)))" by simp
    with f a that[of "writelines (lines s)"] show ?thesis by simp
  qed
  have only: "\<forall>t\<in>set ts. wraps (readlines content1) t \<longrightarrow> t \<in> ?ab"
    using settle wr by simp
  have idx: "\<forall>t\<in>set ts. 1 \<le> t \<or> - int (length (readlines content1)) \<le> t - 1"
  proof
    fix t assume "t \<in> set ts"
    with settle have "1 \<le> t \<or> - int (length ?ls) \<le> t - 1" by blast
    with len show "1 \<le> t \<or> - int (length (readlines content1)) \<le> t - 1" by linarith
  qed
  have "fix_case_block w1 p ts = (w1, Inr 0)
      \<longleftrightarrow> (\<exists>s2. fix_lines (readlines content1) ts = Inr s2 \<and> changes s2 = [])"
    using c1 by (rule file_rerun)
  also have "\<dots> \<longleftrightarrow> (\<forall>t\<in>set ts. \<not> wraps (readlines content1) t
        \<and> (1 \<le> t \<or> - int (length (readlines content1)) \<le> t - 1))"
    by (rule rerun_iff)
  also have "\<dots> \<longleftrightarrow> (\<forall>t\<in>set ts. \<not> wraps (readlines content1) t)"
    using idx by blast
  also have "\<dots> \<longleftrightarrow> (\<forall>t\<in>?ab. \<not> wraps (readlines content1) t)"
    using only sub by blast
  finally have "fix_case_block w1 p ts = (w1, Inr 0)
      \<longleftrightarrow> (\<forall>t\<in>?ab. \<not> wraps (readlines content1) t)" .
  with c1 only show ?thesis by blast
qed

theorem second_run_no_op_witness:
  "files scenario_world ''f.ts'' = Some (concat scenario_lines)
   \<and> snd (fix_case_block scenario_world ''f.ts'' [2, 3]) = Inr 1
   \<and> absorbed \<lparr>lines = readlines (concat scenario_lines), changes = [], modified_lines = {}\<rparr>
        (sort [2, 3]) = [3]
   \<and> \<not> wraps (lines scenario_state) 3
   \<and> fix_case_block (fst (fix_case_block scenario_world ''f.ts'' [2, 3])) ''f.ts'' [2, 3]
       = (fst (fix_case_block scenario_world ''f.ts'' [2, 3]), Inr 0)"
proof -
  let ?w1 = "fst (fix_case_block scenario_world ''f.ts'' [2, 3])"
  let ?init = "\<lparr>lines = readlines (concat scenario_lines), changes = [], modified_lines = {}\<rparr>"
  have h1: "files scenario_world ''f.ts'' = Some (concat scenario_lines)"
    by (simp add: scenario_world_def)
  have r: "snd (fix_case_block scenario_world ''f.ts'' [2, 3]) = Inr 1" by code_simp
  then have h2: "fix_case_block scenario_world ''f.ts'' [2, 3] = (?w1, Inr 1)"
    by (metis prod.collapse)
  have ab: "absorbed ?init (sort [2, 3]) = [3]" by code_simp
  have f1: "files ?w1 ''f.ts'' = Some (concat (lines scenario_state))" by code_simp
  have rd: "readlines (concat (lines scenario_state)) = lines scenario_state" by code_simp
  have nw: "\<not> wraps (lines scenario_state) 3" by code_simp
  from second_run_no_op[OF h1 h2] obtain content1 where c1: "files ?w1 ''f.ts'' = Some content1"
    and iff: "fix_case_block ?w1 ''f.ts'' [2, 3] = (?w1, Inr 0) \<longleftrightarrow>
          (\<forall>t\<in>set (absorbed ?init (sort [2, 3])). \<not> wraps (readlines content1) t)"
    by blast
  from c1 f1 have eq: "content1 = concat (lines scenario_state)" by simp
  have "\<forall>t\<in>set [3::int]. \<not> wraps (lines scenario_state) t" using nw by simp
  then have "\<forall>t\<in>set (absorbed ?init (sort [2, 3])). \<not> wraps (readlines content1) t"
    unfolding ab eq rd .
  with iff have "fix_case_block ?w1 ''f.ts'' [2, 3] = (?w1, Inr 0)" by blast
  with h1 r ab nw show ?thesis by blast
qed

text \<open>
  Claim C2. On the four lines \<open>case 'x':\<close>, \<open>const y = 1;\<close>, \<open>doSomething(y);\<close>,
  \<open>break;\<close> with the target 2 (the \<open>const\<close> line) and no opening brace anywhere, the
  loop appends \<open>{\<close> to the case line and inserts the closing brace right after the
  \<open>break;\<close> line, four columns deeper than the case line (six spaces for a case line at
  two); \<open>fix_case_block\<close> returns 1 and writes these five lines.
\<close>

theorem scenario_one_wrapped:
  "fix_lines
     [''  case 'x':\<newline>'',
      ''    const y = 1;\<newline>'',
      ''    doSomething(y);\<newline>'',
      ''    break;\<newline>''] [2]
   = Inr \<lparr>lines =
            [''  case 'x': {\<newline>'',
             ''    const y = 1;\<newline>'',
             ''    doSomething(y);\<newline>'',
             ''    break;\<newline>'',
             ''      }\<newline>''],
          changes = [\<lparr>case_line = 1, declaration_line = 2, end_line = 5\<rparr>],
          modified_lines = {1, 2, 3, 4, 5, 6}\<rparr>
   \<and> readlines (concat scenario_lines) = scenario_lines
   \<and> snd (fix_case_block scenario_world ''f.ts'' [2]) = Inr 1
   \<and> files (fst (fix_case_block scenario_world ''f.ts'' [2])) ''f.ts''
       = Some (concat (lines scenario_state))"
  by code_simp

text \<open>
  Claim C3, as stated: a target line without \<open>const\<close>, \<open>let\<close> or \<open>var\<close> as a whole
  word is never mutated, even when listed. It fails when that line is the case label
  above another listed target: with the targets 1 and 2, line 1 has no keyword and is
  rewritten as the case line of the block wrapped for line 2.
\<close>

theorem keywordless_target_rewritten:
  "\<not> has_lexical_decl ''case 1:\<newline>''
   \<and> fix_lines [''case 1:\<newline>'', ''  let a;\<newline>''] [1, 2]
     = Inr \<lparr>lines = [''case 1: {\<newline>'', ''  let a;\<newline>'', ''    }\<newline>''],
            changes = [\<lparr>case_line = 1, declaration_line = 2, end_line = 3\<rparr>],
            modified_lines = {1, 2, 3, 4}\<rparr>"
  by code_simp

text \<open>
  Claim C3, amended: a target whose line has no such keyword when its turn comes causes
  no change, the iteration leaves the state as it is; and when no target of the list has
  a keyword on its line, the run leaves the lines as they are and records no change.
\<close>

theorem keywordless_target_no_effect:
  "(py_index (lines s) (t - 1) = Inr line \<and> \<not> has_lexical_decl line
      \<longrightarrow> process_target s t = Inr s)
   \<and> ((\<forall>t\<in>set ts. 1 \<le> t \<and> (t \<le> int (length ls) \<longrightarrow> \<not> has_lexical_decl (ls ! nat (t - 1))))
      \<longrightarrow> fix_lines ls ts = Inr \<lparr>lines = ls, changes = [], modified_lines = {}\<rparr>)"
proof (rule conjI)
  show "py_index (lines s) (t - 1) = Inr line \<and> \<not> has_lexical_decl line
      \<longrightarrow> process_target s t = Inr s"
    using process_target_no_decl by blast
next
  show "(\<forall>t\<in>set ts. 1 \<le> t \<and> (t \<le> int (length ls) \<longrightarrow> \<not> has_lexical_decl (ls ! nat (t - 1))))
      \<longrightarrow> fix_lines ls ts = Inr \<lparr>lines = ls, changes = [], modified_lines = {}\<rparr>"
  proof
    let ?s = "\<lparr>lines = ls, changes = [], modified_lines = {}\<rparr>"
    assume a: "\<forall>t\<in>set ts. 1 \<le> t \<and> (t \<le> int (length ls) \<longrightarrow> \<not> has_lexical_decl (ls ! nat (t - 1)))"
    have "\<forall>t\<in>set (sort ts). \<not> wraps (lines ?s) t \<and> - int (length (lines ?s)) \<le> t - 1"
    proof
      fix t assume "t \<in> set (sort ts)"
      then have "t \<in> set ts" by simp
      with a have "1 \<le> t" and "t \<le> int (length ls) \<longrightarrow> \<not> has_lexical_decl (ls ! nat (t - 1))"
        by blast+
      from no_decl_not_wraps[OF this]
      show "\<not> wraps (lines ?s) t \<and> - int (length (lines ?s)) \<le> t - 1" by simp
    qed
    from settled_run[OF this] show "fix_lines ls ts = Inr ?s" by (simp add: fix_lines_def)
  qed
qed

theorem keywordless_target_no_effect_witness:
  "py_index scenario_lines (3 - 1) = Inr ''    doSomething(y);\<newline>''
   \<and> \<not> has_lexical_decl ''    doSomething(y);\<newline>''
   \<and> process_target \<lparr>lines = scenario_lines, changes = [], modified_lines = {}\<rparr> 3
       = Inr \<lparr>lines = scenario_lines, changes = [], modified_lines = {}\<rparr>
   \<and> fix_lines scenario_lines [3, 4]
       = Inr \<lparr>lines = scenario_lines, changes = [], modified_lines = {}\<rparr>"
proof -
  have h1: "py_index scenario_lines (3 - 1) = Inr ''    doSomething(y);\<newline>''" by code_simp
  have h2: "\<not> has_lexical_decl ''    doSomething(y);\<newline>''" by code_simp
  have h3: "\<forall>t\<in>set [3, 4]. 1 \<le> t \<and> (t \<le> int (length scenario_lines)
      \<longrightarrow> \<not> has_lexical_decl (scenario_lines ! nat (t - 1)))"
    by code_simp
  from keywordless_target_no_effect[of "\<lparr>lines = scenario_lines, changes = [], modified_lines = {}\<rparr>"
      3 "''    doSomething(y);\<newline>''" "[3, 4]" scenario_lines] h1 h2 h3
  show ?thesis by simp
qed

text \<open>
  Claim C4. When an iteration wraps a block and records the change \<open>c\<close>, every line
  number from \<open>case_line c\<close> to \<open>end_line c + 1\<close> is in the set of modified lines; it
  stays there for the rest of the run, and a target in that range is skipped. So a second
  target inside the block just wrapped adds nothing: the run over both targets ends in
  the state left by the first, with one change and one line more.
\<close>

theorem modified_range_absorbs:
  assumes "process_target s t = Inr s'" and "changes s' = changes s @ [c]"
  shows "{case_line c..end_line c + 1} \<subseteq> modified_lines s'
    \<and> (\<forall>ts s''. process_targets s' ts = Inr s'' \<longrightarrow>
          (\<forall>u\<in>{case_line c..end_line c + 1}.
              u \<in> modified_lines s'' \<and> process_target s'' u = Inr s''))
    \<and> (\<forall>u\<in>{case_line c..end_line c + 1}. process_targets s [t, u] = Inr s')
    \<and> (\<forall>ls u. s = \<lparr>lines = ls, changes = [], modified_lines = {}\<rparr> \<and> t \<le> u
                \<and> u \<le> end_line c + 1 \<longrightarrow>
          fix_lines ls [t, u] = Inr s' \<and> length (changes s') = 1
          \<and> length (lines s') = length ls + 1)"
proof -
  from process_target_appended[OF assms]
  have w: "wraps (lines s) t" and s': "s' = wrapped s t"
    and c: "c = \<lparr>case_line = int (anchor (lines s) t) + 1, declaration_line = t,
                 end_line = int (block_end (lines s) t) + 1\<rparr>" by simp_all
  have range: "{case_line c..end_line c + 1} \<subseteq> modified_lines s'"
    unfolding s' modified_lines_wrapped c by auto
  have later: "u \<in> modified_lines s'' \<and> process_target s'' u = Inr s''"
    if "process_targets s' ts = Inr s''" and "u \<in> {case_line c..end_line c + 1}" for ts s'' u
  proof -
    from process_targets_modified_mono[OF that(1)] range that(2)
    have "u \<in> modified_lines s''" by blast
    then show ?thesis by (simp add: process_target_modified)
  qed
  have two: "process_targets s [t, u] = Inr s'" if "u \<in> {case_line c..end_line c + 1}" for u
  proof -
    from range that have "u \<in> modified_lines s'" by blast
    then show ?thesis using assms(1) by (simp add: process_target_modified)
  qed
  have below: "case_line c \<le> t" using wraps_anchor_less[OF w] by (simp add: c)
  have run: "fix_lines ls [t, u] = Inr s' \<and> length (changes s') = 1
          \<and> length (lines s') = length ls + 1"
    if "s = \<lparr>lines = ls, changes = [], modified_lines = {}\<rparr>" and "t \<le> u"
      and "u \<le> end_line c + 1" for ls u
  proof -
    from that(2,3) below have "u \<in> {case_line c..end_line c + 1}" by simp
    from two[OF this] that(1,2) have "fix_lines ls [t, u] = Inr s'"
      by (simp add: fix_lines_def)
    moreover have "length (changes s') = 1" using assms(2) that(1) by simp
    moreover have "length (lines s') = length ls + 1"
      using that(1) by (simp add: s' lines_wrapped length_wrapped_lines)
    ultimately show ?thesis by simp
  qed
  from range later two run show ?thesis by blast
qed

theorem modified_range_absorbs_witness:
  "process_target \<lparr>lines = scenario_lines, changes = [], modified_lines = {}\<rparr> 2
     = Inr scenario_state
   \<and> changes scenario_state = [] @ [\<lparr>case_line = 1, declaration_line = 2, end_line = 5\<rparr>]
   \<and> {1..6} \<subseteq> modified_lines scenario_state
   \<and> fix_lines scenario_lines [2, 3] = Inr scenario_state"
proof -
  have h1: "process_target \<lparr>lines = scenario_lines, changes = [], modified_lines = {}\<rparr> 2
     = Inr scenario_state"
    by code_simp
  have h2: "changes scenario_state
     = changes \<lparr>lines = scenario_lines, changes = [], modified_lines = {}\<rparr>
       @ [\<lparr>case_line = 1, declaration_line = 2, end_line = 5\<rparr>]"
    by (simp add: scenario_state_def)
  from modified_range_absorbs[OF h1 h2] h1 h2 show ?thesis by simp
qed

text \<open>
  Claim C5. A target above the current number of lines is skipped: the iteration leaves
  the state as it is and raises nothing. A run whose targets are all above the number of
  lines changes nothing and records no change, and \<open>fix_case_block\<close> then returns 0 and
  leaves the world as it is; so does the target 99999 on a file of ten lines.
\<close>

theorem stale_target_skipped:
  "(int (length (lines s)) < t \<longrightarrow> process_target s t = Inr s)
   \<and> ((\<forall>t\<in>set ts. int (length ls) < t) \<longrightarrow>
        fix_lines ls ts = Inr \<lparr>lines = ls, changes = [], modified_lines = {}\<rparr>)
   \<and> (files w p = Some content \<and> (\<forall>t\<in>set ts. int (length (readlines content)) < t) \<longrightarrow>
        fix_case_block w p ts = (w, Inr 0))"
proof -
  have a: "int (length (lines s)) < t \<longrightarrow> process_target s t = Inr s"
    by (simp add: process_target_beyond)
  have b: "fix_lines ls' ts = Inr \<lparr>lines = ls', changes = [], modified_lines = {}\<rparr>"
    if "\<forall>t\<in>set ts. int (length ls') < t" for ls'
    unfolding fix_lines_def using that by (intro process_targets_beyond) simp
  have c: "files w p = Some content \<and> (\<forall>t\<in>set ts. int (length (readlines content)) < t) \<longrightarrow>
        fix_case_block w p ts = (w, Inr 0)"
    by (auto simp: fix_case_block_def b)
  from a b c show ?thesis by blast
qed

theorem stale_target_skipped_witness:
  "length ten_lines = 10
   \<and> process_target \<lparr>lines = ten_lines, changes = [], modified_lines = {}\<rparr> 99999
       = Inr \<lparr>lines = ten_lines, changes = [], modified_lines = {}\<rparr>
   \<and> fix_lines ten_lines [99999] = Inr \<lparr>lines = ten_lines, changes = [], modified_lines = {}\<rparr>
   \<and> fix_case_block \<lparr>files = [''f.ts'' \<mapsto> concat ten_lines], events = []\<rparr> ''f.ts'' [99999]
       = (\<lparr>files = [''f.ts'' \<mapsto> concat ten_lines], events = []\<rparr>, Inr 0)"
proof -
  have len: "length ten_lines = 10" by (simp add: ten_lines_def)
  have rd: "length (readlines (concat ten_lines)) = 10" by code_simp
  from stale_target_skipped[of "\<lparr>lines = ten_lines, changes = [], modified_lines = {}\<rparr>" 99999
      "[99999]" ten_lines "\<lparr>files = [''f.ts'' \<mapsto> concat ten_lines], events = []\<rparr>" "''f.ts''"
      "concat ten_lines"] len rd
  show ?thesis by simp
qed

text \<open>
  Claim C6. An iteration that wraps a block changes the lines in two places only. With
  \<open>A\<close> the index of the nearest case label above the target and \<open>B\<close> the index computed
  for the end of the block (the recorded change holds \<open>A + 1\<close> and \<open>B + 1\<close>, and the
  target lies strictly between), the line at \<open>A\<close> becomes its right-stripped text
  followed by \<open>{\<close>, one closing-brace line is inserted at \<open>B\<close>, every other line before
  \<open>B\<close> keeps its text and place, and every line from \<open>B\<close> on keeps its text one place
  further down.
\<close>

theorem only_anchor_and_closing_line_change:
  assumes "process_target s t = Inr s'" and "changes s' = changes s @ [c]"
  shows "\<exists>A B. case_line c = int A + 1 \<and> end_line c = int B + 1
      \<and> int A + 2 \<le> t \<and> t \<le> int B \<and> B \<le> length (lines s)
      \<and> is_case_label (lines s ! A)
      \<and> (\<forall>j. A < j \<and> int j + 2 \<le> t \<longrightarrow> \<not> is_case_label (lines s ! j))
      \<and> length (lines s') = length (lines s) + 1
      \<and> lines s' ! A = rstrip (lines s ! A) @ '' {'' @ [CHR 0x0A]
      \<and> lines s' ! B = replicate (indent_of (lines s ! A) + 4) CHR '' '' @ ''}'' @ [CHR 0x0A]
      \<and> (\<forall>i<B. i \<noteq> A \<longrightarrow> lines s' ! i = lines s ! i)
      \<and> (\<forall>i. B \<le> i \<and> i < length (lines s) \<longrightarrow> lines s' ! (i + 1) = lines s ! i)"
proof -
  from process_target_appended[OF assms]
  have w: "wraps (lines s) t" and s': "s' = wrapped s t"
    and c: "c = \<lparr>case_line = int (anchor (lines s) t) + 1, declaration_line = t,
                 end_line = int (block_end (lines s) t) + 1\<rparr>" by simp_all
  let ?A = "anchor (lines s) t" and ?B = "block_end (lines s) t"
  have a: "int ?A + 2 \<le> t" using w by (rule wraps_anchor_less)
  have b: "nat t \<le> ?B" by (rule wraps_block_end_ge)
  then have b': "t \<le> int ?B" by linarith
  have e: "?B \<le> length (lines s)" using w by (rule wraps_block_end_le)
  from a b' have ab: "?A < ?B" by linarith
  have nth: "lines s' ! j =
           (if j = ?A then open_case (lines s ! ?A)
            else if j < ?B then lines s ! j
            else if j = ?B then closing_line (indent_of (lines s ! ?A))
            else lines s ! (j - 1))" for j
    unfolding s' lines_wrapped by (rule nth_wrapped_lines[OF w])
  have "case_line c = int ?A + 1" "end_line c = int ?B + 1" by (simp_all add: c)
  moreover note a b' e
  moreover have "is_case_label (lines s ! ?A)" using w by (rule wraps_anchor_label)
  moreover have "\<forall>j. ?A < j \<and> int j + 2 \<le> t \<longrightarrow> \<not> is_case_label (lines s ! j)"
    using wraps_anchor_nearest[OF w] by blast
  moreover have "length (lines s') = length (lines s) + 1"
    by (simp add: s' lines_wrapped length_wrapped_lines)
  moreover have "lines s' ! ?A = rstrip (lines s ! ?A) @ '' {'' @ [CHR 0x0A]"
    by (simp add: nth open_case_def)
  moreover have "lines s' ! ?B = replicate (indent_of (lines s ! ?A) + 4) CHR '' '' @ ''}'' @ [CHR 0x0A]"
    using ab by (simp add: nth closing_line_def)
  moreover have "\<forall>i<?B. i \<noteq> ?A \<longrightarrow> lines s' ! i = lines s ! i"
    by (simp add: nth)
  moreover have "\<forall>i. ?B \<le> i \<and> i < length (lines s) \<longrightarrow> lines s' ! (i + 1) = lines s ! i"
    using ab by (simp add: nth)
  ultimately show ?thesis by blast
qed

theorem only_anchor_and_closing_line_change_witness:
  "process_target \<lparr>lines = scenario_lines, changes = [], modified_lines = {}\<rparr> 2
     = Inr scenario_state
   \<and> changes scenario_state = [] @ [\<lparr>case_line = 1, declaration_line = 2, end_line = 5\<rparr>]
   \<and> (\<exists>A B. (1::int) = int A + 1 \<and> (5::int) = int B + 1
        \<and> length (lines scenario_state) = length scenario_lines + 1
        \<and> (\<forall>i<B. i \<noteq> A \<longrightarrow> lines scenario_state ! i = scenario_lines ! i))"
proof -
  have h1: "process_target \<lparr>lines = scenario_lines, changes = [], modified_lines = {}\<rparr> 2
     = Inr scenario_state"
    by code_simp
  have h2: "changes scenario_state
     = changes \<lparr>lines = scenario_lines, changes = [], modified_lines = {}\<rparr>
       @ [\<lparr>case_line = 1, declaration_line = 2, end_line = 5\<rparr>]"
    by (simp add: scenario_state_def)
  from only_anchor_and_closing_line_change[OF h1 h2]
  obtain A B where "case_line \<lparr>case_line = 1, declaration_line = 2, end_line = 5\<rparr> = int A + 1"
    and "end_line \<lparr>case_line = 1, declaration_line = 2, end_line = 5\<rparr> = int B + 1"
    and "length (lines scenario_state)
         = length (lines \<lparr>lines = scenario_lines, changes = [], modified_lines = {}\<rparr>) + 1"
    and "\<forall>i<B. i \<noteq> A \<longrightarrow> lines scenario_state ! i
         = lines \<lparr>lines = scenario_lines, changes = [], modified_lines = {}\<rparr> ! i"
    by blast
  then have "\<exists>A B. (1::int) = int A + 1 \<and> (5::int) = int B + 1
        \<and> length (lines scenario_state) = length scenario_lines + 1
        \<and> (\<forall>i<B. i \<noteq> A \<longrightarrow> lines scenario_state ! i = scenario_lines ! i)"
    by auto
  with h1 h2 show ?thesis by simp
qed

text \<open>
  Claim C7. \<open>fix_case_block\<close> writes the file exactly when it returns a positive count:
  then the file at the path is replaced, by one write, and nothing else is written;
  when it returns 0, or raises, or the file is missing, no file changes and nothing is
  written (only messages are printed).
\<close>

theorem written_iff_changed:
  assumes "fix_case_block w p ts = (w', r)"
  shows "((\<exists>n. r = Inr n \<and> 0 < n) \<longrightarrow>
            (\<exists>content prints. files w' = (files w)(p \<mapsto> content)
               \<and> events w' = events w @ Write p content # prints
               \<and> (\<forall>q d. Write q d \<notin> set prints)))
       \<and> (\<not> (\<exists>n. r = Inr n \<and> 0 < n) \<longrightarrow>
            files w' = files w \<and> (\<exists>prints. events w' = events w @ prints
               \<and> (\<forall>q d. Write q d \<notin> set prints)))"
proof (cases "files w p")
  case None
  with assms show ?thesis by (auto simp: fix_case_block_def emit_def)
next
  case (Some content)
  show ?thesis
  proof (cases "fix_lines (readlines content) ts")
    case (Inl e)
    with Some assms show ?thesis by (auto simp: fix_case_block_def)
  next
    case (Inr st)
    show ?thesis
    proof (cases "changes st = []")
      case True
      with Some Inr assms show ?thesis by (auto simp: fix_case_block_def)
    next
      case False
      with Some Inr assms show ?thesis
        by (auto simp: fix_case_block_def emit_def write_file_def)
    qed
  qed
qed

theorem written_iff_changed_witness:
  "snd (fix_case_block scenario_world ''f.ts'' [2]) = Inr 1
   \<and> (\<exists>content prints.
         files (fst (fix_case_block scenario_world ''f.ts'' [2]))
           = (files scenario_world)(''f.ts'' \<mapsto> content)
         \<and> events (fst (fix_case_block scenario_world ''f.ts'' [2]))
           = events scenario_world @ Write ''f.ts'' content # prints
         \<and> (\<forall>q d. Write q d \<notin> set prints))"
proof -
  have h: "fix_case_block scenario_world ''f.ts'' [2]
     = (fst (fix_case_block scenario_world ''f.ts'' [2]),
        snd (fix_case_block scenario_world ''f.ts'' [2]))"
    by simp
  have r: "snd (fix_case_block scenario_world ''f.ts'' [2]) = Inr 1" by code_simp
  from written_iff_changed[OF h] r show ?thesis by simp
qed

text \<open>
  Claim C8. When the path names no file, \<open>fix_case_block\<close> prints that the file was not
  found, changes no file and returns 0; the loop of \<open>main\<close> then goes on with the rest
  of the table and the same total.
\<close>

theorem missing_file_reported:
  assumes "files w p = None"
  shows "fix_case_block w p ts = (emit w [Print (File_not_found p)], Inr 0)
         \<and> files (emit w [Print (File_not_found p)]) = files w
         \<and> fix_all w ((p, ts) # rest) n = fix_all (emit w [Print (File_not_found p)]) rest n"
  using assms by (simp add: fix_case_block_def emit_def)

theorem missing_file_reported_witness:
  "files \<lparr>files = Map.empty, events = []\<rparr> ''gone.ts'' = None
   \<and> fix_case_block \<lparr>files = Map.empty, events = []\<rparr> ''gone.ts'' [3]
       = (\<lparr>files = Map.empty, events = [Print (File_not_found ''gone.ts'')]\<rparr>, Inr 0)
   \<and> fix_all \<lparr>files = Map.empty, events = []\<rparr> [(''gone.ts'', [3]), (''f.ts'', [2])] 0
       = fix_all \<lparr>files = Map.empty, events = [Print (File_not_found ''gone.ts'')]\<rparr>
           [(''f.ts'', [2])] 0"
proof -
  have h: "files \<lparr>files = Map.empty, events = []\<rparr> ''gone.ts'' = None" by simp
  from missing_file_reported[OF h, of "[3]" "[(''f.ts'', [2])]" 0] h
  show ?thesis by (simp add: emit_def)
qed

text \<open>
  Claim C9. A run whose targets are line numbers from 1 up ends without an exception;
  and when the loop ends, the number of lines is the number of lines read plus the number
  of changes recorded, which is the count \<open>fix_case_block\<close> returns.
\<close>

theorem length_grows_by_count:
  "((\<forall>t\<in>set ts. 1 \<le> t) \<longrightarrow> (\<exists>s. fix_lines ls ts = Inr s))
   \<and> (\<forall>s. fix_lines ls ts = Inr s \<longrightarrow>
         length (lines s) = length ls + length (changes s)
         \<and> (\<forall>w p content. files w p = Some content \<and> readlines content = ls
              \<longrightarrow> snd (fix_case_block w p ts) = Inr (length (changes s))))"
proof (intro conjI impI allI)
  assume "\<forall>t\<in>set ts. 1 \<le> t"
  then have "\<forall>t\<in>set (sort ts). 1 \<le> t" by simp
  from process_targets_total[OF this] show "\<exists>s. fix_lines ls ts = Inr s"
    unfolding fix_lines_def .
next
  fix s assume a: "fix_lines ls ts = Inr s"
  then show "length (lines s) = length ls + length (changes s)"
    unfolding fix_lines_def by (auto dest: process_targets_length)
next
  fix s and w :: world and p content
  assume "fix_lines ls ts = Inr s" and "files w p = Some content \<and> readlines content = ls"
  then show "snd (fix_case_block w p ts) = Inr (length (changes s))"
    by (auto simp: fix_case_block_returns)
qed

theorem length_grows_by_count_witness:
  "(1::int) \<le> 2
   \<and> (\<exists>s. fix_lines scenario_lines [2] = Inr s)
   \<and> fix_lines scenario_lines [2] = Inr scenario_state
   \<and> length (lines scenario_state) = length scenario_lines + length (changes scenario_state)
   \<and> snd (fix_case_block scenario_world ''f.ts'' [2]) = Inr (length (changes scenario_state))"
proof -
  have h: "fix_lines scenario_lines [2] = Inr scenario_state" by code_simp
  have f: "files scenario_world ''f.ts'' = Some (concat scenario_lines)"
    by (simp add: scenario_world_def)
  have rd: "readlines (concat scenario_lines) = scenario_lines" by code_simp
  from length_grows_by_count[of "[2]" scenario_lines] h f rd show ?thesis by auto
qed




end
